theory Spec2Isabelle
  imports Main "HOL-Library.AList"
begin

section \<open>Strings and the string methods the sources call\<close>

text \<open>
  A JavaScript string is a sequence of UTF-16 code units; \<open>length\<close>, \<open>charCodeAt\<close>,
  \<open>indexOf\<close>, \<open>slice\<close> and the match indices of a regular expression without the
  \<open>u\<close> flag all count code units. A string is therefore modelled as the list of its
  code units (natural numbers), and a literal of the sources is written \<open>js ''...''\<close>.
\<close>

type_synonym jsstring = "nat list"

definition js :: "string \<Rightarrow> jsstring" where
  "js s = map of_char s"

text \<open>\<open>s.slice(start, end)\<close>: negative arguments count from the end, both are clamped.\<close>

definition slice :: "jsstring \<Rightarrow> int \<Rightarrow> int \<Rightarrow> jsstring" where
  "slice s start end =
     (let len = int (length s);
          from = (if start < 0 then max (len + start) 0 else min start len);
          to = (if end < 0 then max (len + end) 0 else min end len)
      in take (nat (to - from)) (drop (nat from) s))"

text \<open>\<open>s.slice(start)\<close>: the end defaults to the length.\<close>

definition sliceFrom :: "jsstring \<Rightarrow> int \<Rightarrow> jsstring" where
  "sliceFrom s start = slice s start (int (length s))"

text \<open>Offsets (counted from \<open>k\<close>) of the elements of a list that satisfy \<open>P\<close>.\<close>

primrec indicesFrom :: "nat \<Rightarrow> ('a \<Rightarrow> bool) \<Rightarrow> 'a list \<Rightarrow> nat list" where
  "indicesFrom k P [] = []"
| "indicesFrom k P (x # xs) =
     (if P x then k # indicesFrom (k + 1) P xs else indicesFrom (k + 1) P xs)"

text \<open>\<open>s.indexOf(c, from)\<close> for a one-unit search string: the first index at or after
  \<open>from\<close>, or \<open>-1\<close>.\<close>

definition indexOf :: "jsstring \<Rightarrow> nat \<Rightarrow> nat \<Rightarrow> int" where
  "indexOf s c from =
     (case indicesFrom from (\<lambda>x. x = c) (drop from s) of
        [] \<Rightarrow> - 1
      | k # _ \<Rightarrow> int k)"

text \<open>\<open>s.lastIndexOf(c, from)\<close> for a one-unit search string: the last index at or
  before \<open>from\<close>, or \<open>-1\<close>.\<close>

primrec lastIndexOf :: "jsstring \<Rightarrow> nat \<Rightarrow> nat \<Rightarrow> int" where
  "lastIndexOf s c 0 = (if 0 < length s \<and> s ! 0 = c then 0 else - 1)"
| "lastIndexOf s c (Suc n) =
     (if Suc n < length s \<and> s ! Suc n = c then int (Suc n) else lastIndexOf s c n)"

text \<open>\<open>name.startsWith(p)\<close>.\<close>

definition startsWith :: "jsstring \<Rightarrow> jsstring \<Rightarrow> bool" where
  "startsWith s p = (take (length p) s = p)"

text \<open>\<open>parts.join(sep)\<close>.\<close>

fun joinWith :: "jsstring \<Rightarrow> jsstring list \<Rightarrow> jsstring" where
  "joinWith sep [] = []"
| "joinWith sep [w] = w"
| "joinWith sep (w # v # ws) = w @ sep @ joinWith sep (v # ws)"

section \<open>The shared pattern \<open>INVALID_PATTERN\<close>\<close>

text \<open>
  \<open>INVALID_PATTERN\<close> is one module-level regular expression: a character class of the
  eight units of ()[]<>{} (40, 41, 91, 93, 60, 62, 123, 125). It carries the
  \<open>g\<close> flag, so it owns a mutable \<open>lastIndex\<close>: \<open>test\<close> starts its search there and
  moves it (behind the match on success, to 0 on failure), and \<open>matchAll\<close> copies it
  into the clone that it iterates, leaving the original untouched. The \<open>lastIndex\<close> is
  the only state the models below thread through the parser.
\<close>

definition isInvalidChar :: "nat \<Rightarrow> bool" where
  "isInvalidChar c =
     (c = 40 \<or> c = 41 \<or> c = 91 \<or> c = 93 \<or> c = 60 \<or> c = 62 \<or> c = 123 \<or> c = 125)"

text \<open>\<open>Array.from(input.matchAll(INVALID_PATTERN))\<close>, as the list of the match indices,
  when the pattern's \<open>lastIndex\<close> is \<open>li\<close>.\<close>

definition matchAllInvalid :: "nat \<Rightarrow> jsstring \<Rightarrow> nat list" where
  "matchAllInvalid li input =
     (if li > length input then [] else indicesFrom li isInvalidChar (drop li input))"

text \<open>\<open>INVALID_PATTERN.test(value)\<close>: the answer and the new \<open>lastIndex\<close>.\<close>

definition testInvalid :: "nat \<Rightarrow> jsstring \<Rightarrow> bool \<times> nat" where
  "testInvalid li v =
     (case matchAllInvalid li v of
        [] \<Rightarrow> (False, 0)
      | k # _ \<Rightarrow> (True, k + 1))"

section \<open>parseTokens\<close>

record ParsedToken =
  token :: jsstring
  characterDelta :: int

text \<open>The \<open>for\<close> loop of \<open>parseTokens\<close>: \<open>i\<close> is the loop index, \<open>cd\<close> the variable
  \<open>characterDelta\<close> (\<open>-1\<close> when no token is open); it returns \<open>result\<close> and \<open>cd\<close> as
  they are when the loop ends.\<close>

function scanLoop ::
  "jsstring \<Rightarrow> int \<Rightarrow> int \<Rightarrow> nat \<Rightarrow> int \<Rightarrow> ParsedToken list \<Rightarrow> ParsedToken list \<times> int"
where
  "scanLoop input leftBoundary rightBoundary i cd result =
     (if i < length input then
        (if int i > leftBoundary \<and> int i < rightBoundary then
           scanLoop input leftBoundary rightBoundary (i + 1) (- 1) result
         else if input ! i = 32 then
           (if cd \<noteq> - 1 then
              scanLoop input leftBoundary rightBoundary (i + 1) (- 1)
                (result @ [\<lparr>token = slice input cd (int i), characterDelta = cd\<rparr>])
            else scanLoop input leftBoundary rightBoundary (i + 1) cd result)
         else if cd = - 1 then
           scanLoop input leftBoundary rightBoundary (i + 1) (int i) result
         else scanLoop input leftBoundary rightBoundary (i + 1) cd result)
      else (result, cd))"
  by pat_completeness auto
termination
  by (relation "measure (\<lambda>(input, lb, rb, i, cd, result). length input - i)") auto

declare scanLoop.simps [simp del]

text \<open>The boundaries of the protected zone, from the matches of the pattern.\<close>

definition boundaries :: "nat \<Rightarrow> jsstring \<Rightarrow> int \<times> int" where
  "boundaries li input =
     (case matchAllInvalid li input of
        [] \<Rightarrow> (int (length input), - 1)
      | first # rest \<Rightarrow>
          (lastIndexOf input 32 first,
           (let rightBoundary = indexOf input 32 (last (first # rest))
            in if rightBoundary = - 1 then int (length input) else rightBoundary)))"

definition parseTokens :: "nat \<Rightarrow> jsstring \<Rightarrow> ParsedToken list" where
  "parseTokens li input =
     (case boundaries li input of (leftBoundary, rightBoundary) \<Rightarrow>
        (case scanLoop input leftBoundary rightBoundary 0 (- 1) [] of (result, cd) \<Rightarrow>
           (if cd \<noteq> - 1
            then result @ [\<lparr>token = slice input cd (int (length input)), characterDelta = cd\<rparr>]
            else result)))"

section \<open>Attribute-name classifiers\<close>

definition isEventDefinition :: "jsstring \<Rightarrow> bool" where
  "isEventDefinition name = (startsWith name (js ''on:'') \<or> startsWith name (js ''x-on:''))"

definition isEventReference :: "jsstring \<Rightarrow> bool" where
  "isEventReference name =
     (name = js ''on'' \<or> name = js ''x-on'' \<or> name = js ''reset'' \<or> name = js ''x-reset'')"

definition isEventFilter :: "jsstring \<Rightarrow> bool" where
  "isEventFilter name = (startsWith name (js ''event:'') \<or> startsWith name (js ''x-event:''))"

definition isStateDefinition :: "jsstring \<Rightarrow> bool" where
  "isStateDefinition name = (startsWith name (js ''if:'') \<or> startsWith name (js ''x-if:''))"

definition isStateReference :: "jsstring \<Rightarrow> bool" where
  "isStateReference name = (name = js ''if'' \<or> name = js ''x-if'')"

definition isResultDefinition :: "jsstring \<Rightarrow> bool" where
  "isResultDefinition name =
     (name = js ''result'' \<or> name = js ''x-result'' \<or> name = js ''error'' \<or> name = js ''x-error'')"

definition isResultReference :: "jsstring \<Rightarrow> bool" where
  "isResultReference name = (name = js ''render'' \<or> name = js ''x-render'')"

definition isPosition :: "jsstring \<Rightarrow> bool" where
  "isPosition name = (name = js ''position'' \<or> name = js ''x-position'')"

definition onDependentAttributes :: "jsstring list" where
  "onDependentAttributes =
     [js ''debounce'', js ''throttle'', js ''credentials'', js ''result'', js ''error'',
      js ''redirect'', js ''once'', js ''if:loading'', js ''if:error'', js ''get'', js ''post'',
      js ''put'', js ''delete'']"

definition isOnDependent :: "jsstring \<Rightarrow> bool" where
  "isOnDependent name =
     (startsWith name (js ''h-'') \<or> name \<in> set onDependentAttributes \<or>
      (startsWith name (js ''x-'') \<and> sliceFrom name 2 \<in> set onDependentAttributes))"

definition onDependentTags :: "(jsstring \<times> jsstring list) list" where
  "onDependentTags =
     [(js ''href'', [js ''base'', js ''link'', js ''a'']),
      (js ''action'', [js ''form'']),
      (js ''src'', [js ''img'', js ''iframe'', js ''embed'', js ''video'', js ''audio'',
                    js ''source'', js ''track'', js ''input'', js ''script'']),
      (js ''method'', [js ''form'']),
      (js ''name'', [js ''meta'', js ''iframe'', js ''object'', js ''param'', js ''map'',
                     js ''form'', js ''input'', js ''button'', js ''select'', js ''textarea'',
                     js ''output'', js ''fieldset'', js ''slot'']),
      (js ''value'', [js ''li'', js ''param'', js ''input'', js ''button'', js ''option'',
                      js ''progress'', js ''meter'', js ''data''])]"

definition isTagOnDependent :: "jsstring \<Rightarrow> jsstring \<Rightarrow> bool" where
  "isTagOnDependent tag name =
     (if isOnDependent name then True
      else case map_of onDependentTags name of
        Some tags \<Rightarrow> tag \<notin> set tags
      | None \<Rightarrow>
          (if startsWith name (js ''x-'') then
             (case map_of onDependentTags (sliceFrom name 2) of
                Some tags \<Rightarrow> tag \<notin> set tags
              | None \<Rightarrow> False)
           else False))"

section \<open>Ranges, diagnostics and symbol tables\<close>

record Position =
  line :: int
  character :: int

text \<open>\<open>position.translate({ characterDelta })\<close>.\<close>

definition translate :: "Position \<Rightarrow> int \<Rightarrow> Position" where
  "translate p delta = p\<lparr>character := character p + delta\<rparr>"

record Range =
  rangeStart :: Position
  rangeEnd :: Position

definition isBefore :: "Position \<Rightarrow> Position \<Rightarrow> bool" where
  "isBefore a b = (line a < line b \<or> (line a = line b \<and> character a < character b))"

text \<open>The constructor of \<open>Range\<close> (which \<open>range.with\<close> calls) orders its two positions.\<close>

definition newRange :: "Position \<Rightarrow> Position \<Rightarrow> Range" where
  "newRange a b =
     (if isBefore b a then \<lparr>rangeStart = b, rangeEnd = a\<rparr> else \<lparr>rangeStart = a, rangeEnd = b\<rparr>)"

datatype DiagnosticSeverity = Error | Warning | Information | Hint

datatype DiagnosticTag = Unnecessary | Deprecated

record Diagnostic =
  diagRange :: Range
  message :: jsstring
  severity :: DiagnosticSeverity
  source :: "jsstring option"
  tags :: "DiagnosticTag list option"

text \<open>\<open>new Diagnostic(range, message, severity)\<close> followed by
  \<open>diagnostic.source = "KEML"\<close>, which every diagnostic of the sources gets.\<close>

definition newDiagnostic :: "Range \<Rightarrow> jsstring \<Rightarrow> DiagnosticSeverity \<Rightarrow> Diagnostic" where
  "newDiagnostic r m sev =
     \<lparr>diagRange = r, message = m, severity = sev, source = Some (js ''KEML''), tags = None\<rparr>"

text \<open>
  A \<open>Map<string, Range[]>\<close> iterates in insertion order, \<open>set\<close> on a present key keeps
  the key's place, and \<open>delete\<close> removes the entry: an association list with
  \<open>map_of\<close>, \<open>AList.update\<close> and \<open>AList.delete\<close>.
\<close>

type_synonym Store = "(jsstring \<times> Range list) list"

definition addRange :: "Store \<Rightarrow> jsstring \<Rightarrow> Range \<Rightarrow> Store" where
  "addRange store key r =
     (if key \<noteq> [] then
        (case map_of store key of
           Some ranges \<Rightarrow> AList.update key (ranges @ [r]) store
         | None \<Rightarrow> AList.update key [r] store)
      else store)"

text \<open>\<open>addDefinitionRanges\<close> calls \<open>parseTokens\<close>, which reads the \<open>lastIndex\<close> of the
  shared pattern (\<open>li\<close>) and leaves it as it is.\<close>

definition addDefinitionRanges :: "nat \<Rightarrow> Store \<Rightarrow> jsstring \<Rightarrow> Range \<Rightarrow> Store" where
  "addDefinitionRanges li store v r =
     fold (\<lambda>t st.
            addRange st (token t)
              (newRange (translate (rangeStart r) (characterDelta t))
                        (translate (rangeStart r) (characterDelta t + int (length (token t))))))
          (parseTokens li v) store"

section \<open>parseHTMLDocument\<close>

text \<open>
  The HTML language service is an external library. Its tree is modelled by \<open>Node\<close>:
  the tag, the keys of \<open>node.attributes\<close>, the children, and \<open>scanned\<close>, the attributes
  that the scanner of the service finds in the start tag of the node, in document
  order, as \<open>parseNodeAttrs\<close> yields them (name, unquoted value, value range and full
  range).
\<close>

record Attr =
  attrName :: jsstring
  attrValue :: jsstring
  attrRange :: Range
  fullRange :: Range

datatype Node =
  Node (tag: "jsstring option") (attributes: "jsstring list option")
       (scanned: "Attr list") (children: "Node list")

text \<open>\<open>parseNodeAttrs\<close> yields nothing for a node without tag or attributes.\<close>

definition parseNodeAttrs :: "Node \<Rightarrow> Attr list" where
  "parseNodeAttrs node =
     (if tag node = None \<or> attributes node = None then [] else scanned node)"

text \<open>The accumulators of \<open>parseHTMLDocument\<close>, which are also the fields of the
  \<open>ParsedDocument\<close> it returns.\<close>

record Parsed =
  diagnostics :: "Diagnostic list"
  event_definitions :: Store
  event_references :: Store
  state_definitions :: Store
  state_references :: Store
  result_definitions :: Store
  result_references :: Store

definition emptyParsed :: Parsed where
  "emptyParsed =
     \<lparr>diagnostics = [], event_definitions = [], event_references = [],
      state_definitions = [], state_references = [], result_definitions = [],
      result_references = []\<rparr>"

definition DEP_TPL :: "jsstring \<Rightarrow> jsstring \<Rightarrow> jsstring \<Rightarrow> jsstring" where
  "DEP_TPL name article depends =
     [39] @ name @ [39] @ js '' without '' @ article @ [32, 39] @ depends @ [39]
     @ js '' (or '' @ [39] @ js ''x-'' @ depends @ [39] @ js '') does nothing.''"

definition addDependsDiagnostic ::
  "Diagnostic list \<Rightarrow> jsstring list \<Rightarrow> Range \<Rightarrow> jsstring \<Rightarrow> jsstring \<Rightarrow> jsstring
     \<Rightarrow> Diagnostic list"
where
  "addDependsDiagnostic ds attrs r name depends article =
     (if depends \<in> set attrs \<or> (js ''x-'' @ depends) \<in> set attrs then ds
      else ds @ [(newDiagnostic r (DEP_TPL name article depends) Warning)
                   \<lparr>tags := Some [Unnecessary]\<rparr>])"

definition validPosition :: "jsstring list" where
  "validPosition =
     [js ''replaceChildren'', js ''replaceWith'', js ''before'', js ''after'', js ''prepend'',
      js ''append'']"

text \<open>The character class \<open>\s\<close>, and \<open>END_SPACE_PATTERN.test(value)\<close> (a pattern without
  the \<open>g\<close> flag, hence without state).\<close>

definition isWhiteSpace :: "nat \<Rightarrow> bool" where
  "isWhiteSpace c =
     (c \<in> {9, 10, 11, 12, 13, 32, 160, 5760, 8232, 8233, 8239, 8287, 12288, 65279}
      \<or> (8192 \<le> c \<and> c \<le> 8202))"

definition testEndSpace :: "jsstring \<Rightarrow> bool" where
  "testEndSpace v = (v \<noteq> [] \<and> (isWhiteSpace (hd v) \<or> isWhiteSpace (last v)))"

definition noActionMessage :: jsstring where
  "noActionMessage = js ''No action specified.''"

definition verbatimMessage :: jsstring where
  "verbatimMessage =
     js ''Action subscribers are only allowed to hold 1 value and are used verbatim.'' @ [10]
     @ js ''Make sure not to have any spaces in the action name.''"

definition invalidPositionMessage :: jsstring where
  "invalidPositionMessage =
     js ''Invalid render position specified.'' @ [10] @ js ''Must be one of: ''
     @ joinWith (js '', '') validPosition @ js ''.''"

text \<open>
  The body of the loop over the attributes of one node. The state is the pair of the
  accumulators and the \<open>lastIndex\<close> of \<open>INVALID_PATTERN\<close>; \<open>tg\<close> is \<open>node.tag\<close> and
  \<open>attrs\<close> the keys of \<open>node.attributes\<close>.
\<close>

definition classifyAttr :: "nat \<Rightarrow> Attr \<Rightarrow> Parsed \<Rightarrow> Parsed" where
  "classifyAttr li a acc =
     (if isEventDefinition (attrName a) then
        acc\<lparr>event_definitions :=
              addDefinitionRanges li (event_definitions acc) (attrValue a) (attrRange a)\<rparr>
      else if isEventReference (attrName a) then
        acc\<lparr>event_references := addRange (event_references acc) (attrValue a) (attrRange a)\<rparr>
      else if isStateDefinition (attrName a) then
        acc\<lparr>state_definitions :=
              addDefinitionRanges li (state_definitions acc) (attrValue a) (attrRange a)\<rparr>
      else if isStateReference (attrName a) then
        acc\<lparr>state_references := addRange (state_references acc) (attrValue a) (attrRange a)\<rparr>
      else if isResultDefinition (attrName a) then
        acc\<lparr>result_definitions :=
              addDefinitionRanges li (result_definitions acc) (attrValue a) (attrRange a)\<rparr>
      else if isResultReference (attrName a) then
        acc\<lparr>result_references := addRange (result_references acc) (attrValue a) (attrRange a)\<rparr>
      else acc)"

definition checkReference :: "Attr \<Rightarrow> Diagnostic list \<Rightarrow> Diagnostic list" where
  "checkReference a ds =
     (if isEventReference (attrName a) \<or> isStateReference (attrName a)
         \<or> isResultReference (attrName a) then
        (if attrValue a = [] then
           ds @ [(newDiagnostic (fullRange a) noActionMessage Warning)
                   \<lparr>tags := Some [Unnecessary]\<rparr>]
         else if testEndSpace (attrValue a) then
           ds @ [newDiagnostic (fullRange a) verbatimMessage Error]
         else ds)
      else ds)"

definition checkEventFilter :: "jsstring list \<Rightarrow> Attr \<Rightarrow> Diagnostic list \<Rightarrow> Diagnostic list" where
  "checkEventFilter attrs a ds =
     (if isEventFilter (attrName a) then
        addDependsDiagnostic ds attrs (fullRange a) (attrName a)
          (js ''on'' @ sliceFrom (attrName a) (indexOf (attrName a) 58 0))
          (js ''a corresponding'')
      else ds)"

definition checkOnDependent ::
  "jsstring \<Rightarrow> jsstring list \<Rightarrow> Attr \<Rightarrow> Diagnostic list \<Rightarrow> Diagnostic list" where
  "checkOnDependent tg attrs a ds =
     (if isTagOnDependent tg (attrName a) then
        addDependsDiagnostic ds attrs (fullRange a) (attrName a) (js ''on'') (js ''an'')
      else ds)"

definition checkPosition ::
  "jsstring list \<Rightarrow> Attr \<Rightarrow> Diagnostic list \<times> nat \<Rightarrow> Diagnostic list \<times> nat" where
  "checkPosition attrs a p =
     (case p of (ds, li) \<Rightarrow>
        (if isPosition (attrName a) then
           (let ds1 = addDependsDiagnostic ds attrs (fullRange a) (attrName a) (js ''render'')
                        (js ''a'')
            in if attrValue a \<in> set validPosition then (ds1, li)
               else (case testInvalid li (attrValue a) of (found, li') \<Rightarrow>
                       (if \<not> found
                        then (ds1 @ [newDiagnostic (fullRange a) invalidPositionMessage Error], li')
                        else (ds1, li'))))
         else (ds, li)))"

definition checkXPrefix :: "jsstring list \<Rightarrow> Attr \<Rightarrow> Diagnostic list \<Rightarrow> Diagnostic list" where
  "checkXPrefix attrs a ds =
     (if startsWith (attrName a) (js ''x-'') then
        addDependsDiagnostic ds attrs (fullRange a) (attrName a) (js ''if'') (js ''an'')
      else ds)"

definition parseAttr :: "jsstring \<Rightarrow> jsstring list \<Rightarrow> Attr \<Rightarrow> Parsed \<times> nat \<Rightarrow> Parsed \<times> nat" where
  "parseAttr tg attrs a p =
     (case p of (acc, li) \<Rightarrow>
        (let acc1 = classifyAttr li a acc;
             ds1 = checkOnDependent tg attrs a
                     (checkEventFilter attrs a (checkReference a (diagnostics acc1)))
         in case checkPosition attrs a (ds1, li) of (ds2, li') \<Rightarrow>
              (acc1\<lparr>diagnostics := checkXPrefix attrs a ds2\<rparr>, li')))"

text \<open>The body of \<open>for (node of nodes)\<close>, without the push of \<open>node.children\<close>.\<close>

definition parseNode :: "Node \<Rightarrow> Parsed \<times> nat \<Rightarrow> Parsed \<times> nat" where
  "parseNode node p =
     fold (parseAttr (case tag node of Some t \<Rightarrow> t | None \<Rightarrow> [])
                     (case attributes node of Some ks \<Rightarrow> ks | None \<Rightarrow> []))
          (parseNodeAttrs node) p"

fun weight :: "Node \<Rightarrow> nat" where
  "weight (Node t a s cs) = 2 + sum_list (map weight cs)"

definition stackWeight :: "Node list list \<Rightarrow> nat" where
  "stackWeight stack = sum_list (map (\<lambda>nodes. 1 + sum_list (map weight nodes)) stack)"

text \<open>
  \<open>while ((nodes = stack.pop())) for (node of nodes) { stack.push(node.children); ... }\<close>.
  The head of the list is the top of the stack. The pushes of one \<open>for\<close> loop do not
  depend on the attribute handling, so they are done at once: the children of the last
  node end on top.
\<close>

function parseLoop :: "Node list list \<Rightarrow> Parsed \<times> nat \<Rightarrow> Parsed \<times> nat" where
  "parseLoop [] p = p"
| "parseLoop (nodes # stack) p =
     parseLoop (rev (map children nodes) @ stack) (fold parseNode nodes p)"
  by pat_completeness auto
termination
proof (relation "measure (\<lambda>(stack, p). stackWeight stack)")
  show "wf (measure (\<lambda>(stack, p). stackWeight stack))" by simp
next
  fix nodes :: "Node list" and stack :: "Node list list" and p :: "Parsed \<times> nat"
  have w: "weight n = 2 + sum_list (map weight (children n))" for n
    by (cases n) simp
  have "sum_list (map (\<lambda>ns. 1 + sum_list (map weight ns)) (map children nodes))
        < 1 + sum_list (map weight nodes)"
  proof (induction nodes)
    case Nil
    show ?case by simp
  next
    case (Cons n ns)
    then show ?case using w [of n] by simp
  qed
  then show "((rev (map children nodes) @ stack, fold parseNode nodes p), nodes # stack, p)
        \<in> measure (\<lambda>(stack, p). stackWeight stack)"
    by (simp add: stackWeight_def rev_map [symmetric] sum_list_rev del: rev_map)
qed

text \<open>The documents of the editor and of the language service.\<close>

record TextDocument =
  uri :: jsstring
  path :: jsstring
  version :: int
  languageId :: jsstring
  getText :: jsstring

record LSTextDocument =
  lsUri :: jsstring
  lsLanguageId :: jsstring
  lsVersion :: int
  lsText :: jsstring

record ParsedDocument = Parsed +
  doc :: TextDocument
  textDoc :: LSTextDocument
  htmlDoc :: "Node list"

text \<open>\<open>parseHTMLDocument(doc, textDoc)\<close>; \<open>html\<close> stands for
  \<open>service.parseHTMLDocument\<close> together with the scanner, which turn the text into the
  tree. It returns the parsed document and the \<open>lastIndex\<close> it leaves in the pattern.\<close>

definition parseHTMLDocument ::
  "(jsstring \<Rightarrow> Node list) \<Rightarrow> TextDocument \<Rightarrow> LSTextDocument \<Rightarrow> nat \<Rightarrow> ParsedDocument \<times> nat"
where
  "parseHTMLDocument html d td li =
     (let roots = html (lsText td) in
      case parseLoop [roots] (emptyParsed, li) of (acc, li') \<Rightarrow>
        (\<lparr>diagnostics = diagnostics acc,
          event_definitions = event_definitions acc,
          event_references = event_references acc,
          state_definitions = state_definitions acc,
          state_references = state_references acc,
          result_definitions = result_definitions acc,
          result_references = result_references acc,
          doc = d, textDoc = td, htmlDoc = roots\<rparr>, li'))"

section \<open>The cross-document resolver\<close>

text \<open>The two message templates, built by the tag function \<open>t\<close>.\<close>

definition UNUSED_TPL :: "jsstring \<Rightarrow> jsstring \<Rightarrow> jsstring" where
  "UNUSED_TPL kind action =
     [39] @ action @ [39, 32] @ kind @ js '' action is declared but its value is never read.''"

definition UNDECLARED_TPL :: "jsstring \<Rightarrow> jsstring \<Rightarrow> jsstring" where
  "UNDECLARED_TPL kind action =
     js ''Cannot find '' @ kind @ js '' action '' @ [39] @ action @ [39] @ js ''.''"

text \<open>The workspace table \<open>docs\<close>, a \<open>Map<string, ParsedDocument>\<close>.\<close>

type_synonym Docs = "(jsstring \<times> ParsedDocument) list"

text \<open>The search \<open>for (ref of docs.values()) if (right(ref).has(action)) { found = true;
  break; }\<close>.\<close>

primrec findAction :: "(ParsedDocument \<Rightarrow> Store) \<Rightarrow> jsstring \<Rightarrow> ParsedDocument list \<Rightarrow> bool" where
  "findAction right action [] = False"
| "findAction right action (ref # refs) =
     (if map_of (right ref) action \<noteq> None then True else findAction right action refs)"

text \<open>\<open>for (range of ranges)\<close>: one diagnostic for each range.\<close>

primrec pushRanges ::
  "jsstring \<Rightarrow> DiagnosticSeverity \<Rightarrow> DiagnosticTag list option \<Rightarrow> Range list
     \<Rightarrow> Diagnostic list \<Rightarrow> Diagnostic list"
where
  "pushRanges msg sev tgs [] ds = ds"
| "pushRanges msg sev tgs (r # rs) ds =
     pushRanges msg sev tgs rs
       (ds @ [(case tgs of
                 Some ts \<Rightarrow> (newDiagnostic r msg sev)\<lparr>tags := Some ts\<rparr>
               | None \<Rightarrow> newDiagnostic r msg sev)])"

text \<open>\<open>for (const [action, ranges] of left(cur))\<close>.\<close>

primrec partialLoop ::
  "Docs \<Rightarrow> (ParsedDocument \<Rightarrow> Store) \<Rightarrow> jsstring \<Rightarrow> (jsstring \<Rightarrow> jsstring \<Rightarrow> jsstring)
     \<Rightarrow> DiagnosticSeverity \<Rightarrow> DiagnosticTag list option \<Rightarrow> Store
     \<Rightarrow> Diagnostic list \<Rightarrow> Diagnostic list"
where
  "partialLoop dcs right kind tpl sev tgs [] ds = ds"
| "partialLoop dcs right kind tpl sev tgs (entry # entries) ds =
     partialLoop dcs right kind tpl sev tgs entries
       (if \<not> findAction right (fst entry) (map snd dcs)
        then pushRanges (tpl kind (fst entry)) sev tgs (snd entry) ds
        else ds)"

definition addPartialReferenceDiagnostics ::
  "Docs \<Rightarrow> Diagnostic list \<Rightarrow> ParsedDocument \<Rightarrow> (ParsedDocument \<Rightarrow> Store)
     \<Rightarrow> (ParsedDocument \<Rightarrow> Store) \<Rightarrow> jsstring \<Rightarrow> (jsstring \<Rightarrow> jsstring \<Rightarrow> jsstring)
     \<Rightarrow> DiagnosticSeverity \<Rightarrow> DiagnosticTag list option \<Rightarrow> Diagnostic list"
where
  "addPartialReferenceDiagnostics dcs ds cur left right kind tpl sev tgs =
     partialLoop dcs right kind tpl sev tgs (left cur) ds"

text \<open>\<open>addReferenceDiagnostics\<close>; the two configured severities are \<open>None\<close> when the
  setting is not one of Error, Warning, Information and Hint (\<open>severityMap.get\<close> is
  then \<open>undefined\<close>).\<close>

definition addReferenceDiagnostics ::
  "DiagnosticSeverity option \<Rightarrow> DiagnosticSeverity option \<Rightarrow> Docs \<Rightarrow> Diagnostic list
     \<Rightarrow> ParsedDocument \<Rightarrow> (ParsedDocument \<Rightarrow> Store) \<Rightarrow> (ParsedDocument \<Rightarrow> Store) \<Rightarrow> jsstring
     \<Rightarrow> Diagnostic list"
where
  "addReferenceDiagnostics actionUnusedSeverity actionUndefinedSeverity dcs ds cur
       definitionResolver referenceResolver kind =
     (let ds1 =
        (case actionUnusedSeverity of
           Some sev \<Rightarrow>
             addPartialReferenceDiagnostics dcs ds cur definitionResolver referenceResolver
               kind UNUSED_TPL sev (if sev = Warning then Some [Unnecessary] else None)
         | None \<Rightarrow> ds)
      in case actionUndefinedSeverity of
           Some sev \<Rightarrow>
             addPartialReferenceDiagnostics dcs ds1 cur referenceResolver definitionResolver
               kind UNDECLARED_TPL sev None
         | None \<Rightarrow> ds1)"

section \<open>The workspace state and its handlers\<close>

text \<open>
  The module-level variables of \<open>configure\<close>: the table, the diagnostic collection
  (by URI), the settings, and the \<open>lastIndex\<close> of \<open>INVALID_PATTERN\<close>.
\<close>

record State =
  docs :: Docs
  diagnosticCollection :: "(jsstring \<times> Diagnostic list) list"
  lastIndex :: nat
  languageIds :: "jsstring list"
  exclude :: "jsstring list"
  includeGlobs :: "jsstring list"
  actionUndefinedSeverity :: "DiagnosticSeverity option"
  actionUnusedSeverity :: "DiagnosticSeverity option"

text \<open>The diagnostics that \<open>updateDiagnosticCollection\<close> computes for one document.\<close>

definition documentDiagnostics :: "State \<Rightarrow> ParsedDocument \<Rightarrow> Diagnostic list" where
  "documentDiagnostics s cur =
     (let ds1 = addReferenceDiagnostics (actionUnusedSeverity s) (actionUndefinedSeverity s)
                  (docs s) [] cur event_definitions event_references (js ''event'');
          ds2 = addReferenceDiagnostics (actionUnusedSeverity s) (actionUndefinedSeverity s)
                  (docs s) ds1 cur state_definitions state_references (js ''state'');
          ds3 = addReferenceDiagnostics (actionUnusedSeverity s) (actionUndefinedSeverity s)
                  (docs s) ds2 cur result_definitions result_references (js ''result'')
      in ds3 @ diagnostics cur)"

definition updateDiagnosticCollection :: "State \<Rightarrow> State" where
  "updateDiagnosticCollection s =
     s\<lparr>diagnosticCollection :=
         fold (\<lambda>cur coll. AList.update (uri (doc cur)) (documentDiagnostics s cur) coll)
              (map snd (docs s)) []\<rparr>"

text \<open>\<open>match\<close>, over the library function \<open>matchesGlob\<close> of \<open>node:path\<close>.\<close>

definition glob :: "(jsstring \<Rightarrow> jsstring \<Rightarrow> bool) \<Rightarrow> jsstring \<Rightarrow> jsstring \<Rightarrow> bool" where
  "glob matchesGlob p pattern =
     (matchesGlob p pattern \<or> matchesGlob p (js ''**/'' @ pattern)
      \<or> matchesGlob p (pattern @ js ''/**'') \<or> matchesGlob p (js ''**/'' @ pattern @ js ''/**''))"

primrec matchInclude :: "(jsstring \<Rightarrow> jsstring \<Rightarrow> bool) \<Rightarrow> jsstring \<Rightarrow> jsstring list \<Rightarrow> bool" where
  "matchInclude matchesGlob p [] = False"
| "matchInclude matchesGlob p (pattern # patterns) =
     (if glob matchesGlob p pattern then True else matchInclude matchesGlob p patterns)"

primrec match :: "(jsstring \<Rightarrow> jsstring \<Rightarrow> bool) \<Rightarrow> jsstring \<Rightarrow> jsstring list \<Rightarrow> jsstring list \<Rightarrow> bool" where
  "match matchesGlob p [] inc = True"
| "match matchesGlob p (pattern # patterns) inc =
     (if glob matchesGlob p pattern then matchInclude matchesGlob p inc
      else match matchesGlob p patterns inc)"

text \<open>\<open>setDocs(doc, overwrite)\<close>.\<close>

definition setDocs ::
  "(jsstring \<Rightarrow> jsstring \<Rightarrow> bool) \<Rightarrow> (jsstring \<Rightarrow> Node list) \<Rightarrow> State \<Rightarrow> TextDocument \<Rightarrow> bool \<Rightarrow> State"
where
  "setDocs matchesGlob html s d overwrite =
     (let url = uri d in
      if (map_of (docs s) url \<noteq> None) \<noteq> overwrite then s
      else if languageId d \<notin> set (languageIds s)
              \<or> \<not> match matchesGlob (path d) (exclude s) (includeGlobs s) then s
      else
        (let td = \<lparr>lsUri = url, lsLanguageId = js ''html'', lsVersion = version d,
                   lsText = getText d\<rparr>
         in case parseHTMLDocument html d td (lastIndex s) of (parsed, li') \<Rightarrow>
              updateDiagnosticCollection
                (s\<lparr>docs := AList.update url parsed (docs s), lastIndex := li'\<rparr>)))"

definition onDidChangeDoc ::
  "(jsstring \<Rightarrow> jsstring \<Rightarrow> bool) \<Rightarrow> (jsstring \<Rightarrow> Node list) \<Rightarrow> State \<Rightarrow> TextDocument \<Rightarrow> State"
where
  "onDidChangeDoc matchesGlob html s d = setDocs matchesGlob html s d True"

definition onDidCreateDoc ::
  "(jsstring \<Rightarrow> jsstring \<Rightarrow> bool) \<Rightarrow> (jsstring \<Rightarrow> Node list) \<Rightarrow> State \<Rightarrow> TextDocument \<Rightarrow> State"
where
  "onDidCreateDoc matchesGlob html s d = setDocs matchesGlob html s d False"


section \<open>Notions used to state the properties\<close>

text \<open>Removing the leading and trailing spaces, and collapsing each run of spaces to one
  space.\<close>

definition trimSpaces :: "jsstring \<Rightarrow> jsstring" where
  "trimSpaces s = rev (dropWhile (\<lambda>c. c = 32) (rev (dropWhile (\<lambda>c. c = 32) s)))"

fun collapseSpaces :: "jsstring \<Rightarrow> jsstring" where
  "collapseSpaces (a # b # s) =
     (if a = 32 \<and> b = 32 then collapseSpaces (b # s) else a # collapseSpaces (b # s))"
| "collapseSpaces s = s"

text \<open>\<open>w\<close> is a maximal run of non-space units of \<open>input\<close> that starts at index \<open>off\<close>.\<close>

definition isRunAt :: "jsstring \<Rightarrow> jsstring \<Rightarrow> nat \<Rightarrow> bool" where
  "isRunAt input w off =
     (w \<noteq> [] \<and> 32 \<notin> set w \<and> take (length w) (drop off input) = w \<and>
      (off = 0 \<or> input ! (off - 1) = 32) \<and>
      (off + length w = length input \<or> input ! (off + length w) = 32))"

text \<open>A token moved by \<open>k\<close> units.\<close>

definition shiftToken :: "int \<Rightarrow> ParsedToken \<Rightarrow> ParsedToken" where
  "shiftToken k t = t\<lparr>characterDelta := k + characterDelta t\<rparr>"

text \<open>
  The loop of \<open>parseTokens\<close> once more, by recursion on the units that are still to be
  read: \<open>i\<close> is the index of the next unit, \<open>cur\<close> the text of the open token and
  \<open>st\<close> its start. It is the form the proofs work with; \<open>scanLoop_scanList\<close> connects
  the two.
\<close>

fun scanList :: "int \<Rightarrow> int \<Rightarrow> nat \<Rightarrow> nat \<Rightarrow> jsstring \<Rightarrow> jsstring \<Rightarrow> (jsstring \<times> nat) list" where
  "scanList lb rb i st cur [] = (if cur = [] then [] else [(cur, st)])"
| "scanList lb rb i st cur (c # cs) =
     (if int i > lb \<and> int i < rb then scanList lb rb (i + 1) (i + 1) [] cs
      else if c = 32 then
        (if cur = [] then scanList lb rb (i + 1) (i + 1) [] cs
         else (cur, st) # scanList lb rb (i + 1) (i + 1) [] cs)
      else scanList lb rb (i + 1) (if cur = [] then i else st) (cur @ [c]) cs)"

definition mkToken :: "jsstring \<times> nat \<Rightarrow> ParsedToken" where
  "mkToken p = \<lparr>token = fst p, characterDelta = int (snd p)\<rparr>"

definition finish :: "jsstring \<Rightarrow> ParsedToken list \<times> int \<Rightarrow> ParsedToken list" where
  "finish input p =
     (if snd p \<noteq> - 1
      then fst p @ [\<lparr>token = slice input (snd p) (int (length input)), characterDelta = snd p\<rparr>]
      else fst p)"

text \<open>The words of a text, without their offsets.\<close>

fun wds :: "jsstring \<Rightarrow> jsstring \<Rightarrow> jsstring list" where
  "wds cur [] = (if cur = [] then [] else [cur])"
| "wds cur (c # cs) =
     (if c = 32 then (if cur = [] then wds [] cs else cur # wds [] cs)
      else wds (cur @ [c]) cs)"

definition runAt :: "jsstring \<Rightarrow> jsstring \<Rightarrow> nat \<Rightarrow> bool" where
  "runAt input w off =
     (w \<noteq> [] \<and> 32 \<notin> set w \<and>
      (\<exists>a b. input = a @ w @ b \<and> length a = off \<and>
         (a = [] \<or> last a = 32) \<and> (b = [] \<or> hd b = 32)))"

text \<open>
  The classification grammar as the specification tables it: an attribute name,
  optionally prefixed \<open>x-\<close>, is \<open>on:<evt>\<close> (event, definition), \<open>on\<close> or \<open>reset\<close>
  (event, reference), \<open>if:<s>\<close> (state, definition), \<open>if\<close> (state, reference),
  \<open>result\<close> or \<open>error\<close> (result, definition), \<open>render\<close> (result, reference).
  \<open>grammarRows\<close> lists the rows a name matches.
\<close>

datatype Kind = EventKind | StateKind | ResultKind

datatype Role = DefinitionRole | ReferenceRole

definition unprefixed :: "jsstring \<Rightarrow> jsstring" where
  "unprefixed name = (if startsWith name (js ''x-'') then drop 2 name else name)"

definition grammarRows :: "jsstring \<Rightarrow> (Kind \<times> Role) list" where
  "grammarRows name =
     (let n = unprefixed name in
      (if startsWith n (js ''on:'') then [(EventKind, DefinitionRole)] else []) @
      (if n = js ''on'' \<or> n = js ''reset'' then [(EventKind, ReferenceRole)] else []) @
      (if startsWith n (js ''if:'') then [(StateKind, DefinitionRole)] else []) @
      (if n = js ''if'' then [(StateKind, ReferenceRole)] else []) @
      (if n = js ''result'' \<or> n = js ''error'' then [(ResultKind, DefinitionRole)] else []) @
      (if n = js ''render'' then [(ResultKind, ReferenceRole)] else []))"

text \<open>The classifier of the sources for a row of the table.\<close>

fun classifier :: "Kind \<times> Role \<Rightarrow> jsstring \<Rightarrow> bool" where
  "classifier (EventKind, DefinitionRole) = isEventDefinition"
| "classifier (EventKind, ReferenceRole) = isEventReference"
| "classifier (StateKind, DefinitionRole) = isStateDefinition"
| "classifier (StateKind, ReferenceRole) = isStateReference"
| "classifier (ResultKind, DefinitionRole) = isResultDefinition"
| "classifier (ResultKind, ReferenceRole) = isResultReference"

text \<open>The invariant of a symbol table: every key is a non-empty string and maps to a
  non-empty list of ranges; and of the six tables of a document.\<close>

definition storeInv :: "Store \<Rightarrow> bool" where
  "storeInv store = list_all (\<lambda>entry. fst entry \<noteq> [] \<and> snd entry \<noteq> []) store"

definition tablesInv :: "'a Parsed_scheme \<Rightarrow> bool" where
  "tablesInv p =
     (storeInv (event_definitions p) \<and> storeInv (event_references p) \<and>
      storeInv (state_definitions p) \<and> storeInv (state_references p) \<and>
      storeInv (result_definitions p) \<and> storeInv (result_references p))"

text \<open>
  The two passes of the resolver as the specification words them: a name of the left
  table is reported, once for each of its ranges, when no tracked document has it in its
  right table.
\<close>

definition inSomeDocument :: "Docs \<Rightarrow> (ParsedDocument \<Rightarrow> Store) \<Rightarrow> jsstring \<Rightarrow> bool" where
  "inSomeDocument dcs table action = (\<exists>ref \<in> set (map snd dcs). action \<in> fst ` set (table ref))"

definition passDiagnostic ::
  "jsstring \<Rightarrow> DiagnosticSeverity \<Rightarrow> DiagnosticTag list option \<Rightarrow> Range \<Rightarrow> Diagnostic" where
  "passDiagnostic msg sev tgs r =
     \<lparr>diagRange = r, message = msg, severity = sev, source = Some (js ''KEML''), tags = tgs\<rparr>"

definition passSpec ::
  "Docs \<Rightarrow> Store \<Rightarrow> (ParsedDocument \<Rightarrow> Store) \<Rightarrow> (jsstring \<Rightarrow> jsstring)
     \<Rightarrow> DiagnosticSeverity \<Rightarrow> DiagnosticTag list option \<Rightarrow> Diagnostic list" where
  "passSpec dcs left right msg sev tgs =
     concat (map (\<lambda>entry.
        if inSomeDocument dcs right (fst entry) then []
        else map (passDiagnostic (msg (fst entry)) sev tgs) (snd entry)) left)"

definition unusedSpec ::
  "DiagnosticSeverity option \<Rightarrow> Docs \<Rightarrow> ParsedDocument \<Rightarrow> (ParsedDocument \<Rightarrow> Store)
     \<Rightarrow> (ParsedDocument \<Rightarrow> Store) \<Rightarrow> jsstring \<Rightarrow> Diagnostic list" where
  "unusedSpec configured dcs cur definitions references kind =
     (case configured of
        None \<Rightarrow> []
      | Some sev \<Rightarrow>
          passSpec dcs (definitions cur) references (UNUSED_TPL kind) sev
            (if sev = Warning then Some [Unnecessary] else None))"

definition undefinedSpec ::
  "DiagnosticSeverity option \<Rightarrow> Docs \<Rightarrow> ParsedDocument \<Rightarrow> (ParsedDocument \<Rightarrow> Store)
     \<Rightarrow> (ParsedDocument \<Rightarrow> Store) \<Rightarrow> jsstring \<Rightarrow> Diagnostic list" where
  "undefinedSpec configured dcs cur definitions references kind =
     (case configured of
        None \<Rightarrow> []
      | Some sev \<Rightarrow> passSpec dcs (references cur) definitions (UNDECLARED_TPL kind) sev None)"

text \<open>A \<open>Map\<close> has every key once.\<close>

definition tablesDistinct :: "'a Parsed_scheme \<Rightarrow> bool" where
  "tablesDistinct p =
     (distinct (map fst (event_definitions p)) \<and> distinct (map fst (event_references p)) \<and>
      distinct (map fst (state_definitions p)) \<and> distinct (map fst (state_references p)) \<and>
      distinct (map fst (result_definitions p)) \<and> distinct (map fst (result_references p)))"

section \<open>Example documents\<close>

text \<open>A range on line 0, from one character to another.\<close>

definition span :: "int \<Rightarrow> int \<Rightarrow> Range" where
  "span a b = \<lparr>rangeStart = \<lparr>line = 0, character = a\<rparr>, rangeEnd = \<lparr>line = 0, character = b\<rparr>\<rparr>"

definition exampleTextDocument :: "jsstring \<Rightarrow> jsstring \<Rightarrow> TextDocument" where
  "exampleTextDocument url text =
     \<lparr>uri = url, path = url, version = 1, languageId = js ''html'', getText = text\<rparr>"

text \<open>A parsed document with the given six tables and no local diagnostics.\<close>

definition exampleParsed ::
  "jsstring \<Rightarrow> Store \<Rightarrow> Store \<Rightarrow> Store \<Rightarrow> Store \<Rightarrow> Store \<Rightarrow> Store \<Rightarrow> ParsedDocument" where
  "exampleParsed url ed er sd sr rd rr =
     \<lparr>diagnostics = [], event_definitions = ed, event_references = er,
      state_definitions = sd, state_references = sr, result_definitions = rd,
      result_references = rr, doc = exampleTextDocument url [],
      textDoc = \<lparr>lsUri = url, lsLanguageId = js ''html'', lsVersion = 1, lsText = []\<rparr>,
      htmlDoc = []\<rparr>"

text \<open>A workspace with the given table, the default settings (both severities Error, the
  language \<open>html\<close>, no exclusion) and nothing published yet.\<close>

definition exampleState :: "Docs \<Rightarrow> State" where
  "exampleState dcs =
     \<lparr>docs = dcs, diagnosticCollection = [], lastIndex = 0, languageIds = [js ''html''],
      exclude = [], includeGlobs = [], actionUndefinedSeverity = Some Error,
      actionUnusedSeverity = Some Error\<rparr>"

text \<open>
  The tree and the attributes that the language service gives for the one-element
  document \<^verbatim>\<open><button on:click="(a b" render="r" position="a("></button>\<close>: the values
  stand at the offsets 18 to 22, 32 to 33 and 45 to 47, the attributes at 8 to 23, 24 to
  34 and 35 to 48.
\<close>

definition buttonTree :: "Node list" where
  "buttonTree =
     [Node (Some (js ''button'')) (Some [js ''on:click'', js ''render'', js ''position''])
        [\<lparr>attrName = js ''on:click'', attrValue = js ''(a b'', attrRange = span 18 22,
          fullRange = span 8 23\<rparr>,
         \<lparr>attrName = js ''render'', attrValue = js ''r'', attrRange = span 32 33,
          fullRange = span 24 34\<rparr>,
         \<lparr>attrName = js ''position'', attrValue = js ''a('', attrRange = span 45 47,
          fullRange = span 35 48\<rparr>]
        []]"

text \<open>
  And for the two-element document
  \<^verbatim>\<open><div render="r" position="a("></div><p render="r" position="a("></p>\<close>.
\<close>

definition twoPositionsTree :: "Node list" where
  "twoPositionsTree =
     [Node (Some (js ''div'')) (Some [js ''render'', js ''position''])
        [\<lparr>attrName = js ''render'', attrValue = js ''r'', attrRange = span 13 14,
          fullRange = span 5 15\<rparr>,
         \<lparr>attrName = js ''position'', attrValue = js ''a('', attrRange = span 26 28,
          fullRange = span 16 29\<rparr>]
        [],
      Node (Some (js ''p'')) (Some [js ''render'', js ''position''])
        [\<lparr>attrName = js ''render'', attrValue = js ''r'', attrRange = span 47 48,
          fullRange = span 39 49\<rparr>,
         \<lparr>attrName = js ''position'', attrValue = js ''a('', attrRange = span 60 62,
          fullRange = span 50 63\<rparr>]
        []]"

definition exampleLSDocument :: "jsstring \<Rightarrow> LSTextDocument" where
  "exampleLSDocument url = \<lparr>lsUri = url, lsLanguageId = js ''html'', lsVersion = 1, lsText = []\<rparr>"

section \<open>Properties of parseTokens\<close>

lemma parseTokens_finish:
  "parseTokens li input =
     finish input (scanLoop input (fst (boundaries li input)) (snd (boundaries li input)) 0 (- 1) [])"
  by (simp add: parseTokens_def finish_def split: prod.splits)

lemma slice_nat: "a \<le> b \<Longrightarrow> b \<le> length s \<Longrightarrow> slice s (int a) (int b) = take (b - a) (drop a s)"
  by (simp add: slice_def Let_def min_def nat_diff_distrib')

lemma slice_snoc:
  assumes "a \<le> i" "i < length s"
  shows "slice s (int a) (int (i + 1)) = slice s (int a) (int i) @ [s ! i]"
proof -
  have "take (i + 1 - a) (drop a s) = take (i - a) (drop a s) @ [drop a s ! (i - a)]"
    using assms by (simp add: Suc_diff_le take_Suc_conv_app_nth)
  then show ?thesis
    using assms slice_nat [of a "i + 1" s] slice_nat [of a i s] by simp
qed

lemma scanLoop_scanList:
  assumes "i \<le> length input"
    and "cd = - 1 \<or> (0 \<le> cd \<and> cd < int i)"
  shows "finish input (scanLoop input lb rb i cd result) =
         result @ map mkToken
           (scanList lb rb i (if cd = - 1 then i else nat cd)
              (if cd = - 1 then [] else slice input cd (int i)) (drop i input))"
  using assms
proof (induction input lb rb i cd result rule: scanLoop.induct)
  case (1 input lb rb i cd result)
  show ?case
  proof (cases "i < length input")
    case False
    with "1.prems" have il: "i = length input" by simp
    show ?thesis
      using "1.prems" il
      by (subst scanLoop.simps) (auto simp: finish_def mkToken_def slice_def)
  next
    case True
    then have dr: "drop i input = input ! i # drop (i + 1) input"
      by (simp add: Cons_nth_drop_Suc)
    have ne: "cd \<noteq> - 1 \<Longrightarrow> slice input cd (int i) \<noteq> []"
      using "1.prems" True by (auto simp: slice_def Let_def min_def)
    have sn: "cd \<noteq> - 1 \<Longrightarrow> slice input cd (int (i + 1)) = slice input cd (int i) @ [input ! i]"
      using "1.prems" True slice_snoc [of "nat cd" i input] by auto
    have s1: "slice input (int i) (int (i + 1)) = [input ! i]"
      using True slice_nat [of i "i + 1" input] by (simp add: take_Suc_conv_app_nth)
    show ?thesis
    proof (cases "int i > lb \<and> int i < rb")
      case z: True
      have "finish input (scanLoop input lb rb i cd result)
            = finish input (scanLoop input lb rb (i + 1) (- 1) result)"
        using True z by (subst scanLoop.simps) simp
      also have "\<dots> = result @ map mkToken (scanList lb rb (i + 1) (i + 1) [] (drop (i + 1) input))"
        using "1.IH"(1) [OF True z] True by simp
      finally show ?thesis using z dr by simp
    next
      case z: False
      show ?thesis
      proof (cases "input ! i = 32")
        case sp: True
        show ?thesis
        proof (cases "cd \<noteq> - 1")
          case c: True
          have "finish input (scanLoop input lb rb i cd result)
            = finish input (scanLoop input lb rb (i + 1) (- 1)
                (result @ [\<lparr>token = slice input cd (int i), characterDelta = cd\<rparr>]))"
            using True z sp c by (subst scanLoop.simps) auto
          also have "\<dots> = (result @ [\<lparr>token = slice input cd (int i), characterDelta = cd\<rparr>])
               @ map mkToken (scanList lb rb (i + 1) (i + 1) [] (drop (i + 1) input))"
            using "1.IH"(2) [OF True z sp c] True by simp
          finally show ?thesis using z dr sp c ne "1.prems" by (auto simp: mkToken_def)
        next
          case c: False
          have "finish input (scanLoop input lb rb i cd result)
            = finish input (scanLoop input lb rb (i + 1) cd result)"
            using True z sp c by (subst scanLoop.simps) auto
          also have "\<dots> = result @ map mkToken (scanList lb rb (i + 1) (i + 1) [] (drop (i + 1) input))"
            using "1.IH"(3) [OF True z sp c] True c by simp
          finally show ?thesis using z dr sp c by auto
        qed
      next
        case sp: False
        show ?thesis
        proof (cases "cd = - 1")
          case c: True
          have "finish input (scanLoop input lb rb i cd result)
            = finish input (scanLoop input lb rb (i + 1) (int i) result)"
            using True z sp c by (subst scanLoop.simps) auto
          also have "\<dots> = result @ map mkToken (scanList lb rb (i + 1) i
                (slice input (int i) (int (i + 1))) (drop (i + 1) input))"
            using "1.IH"(4) [OF True z sp c] True by simp
          finally show ?thesis using z dr sp c s1 by auto
        next
          case c: False
          have "finish input (scanLoop input lb rb i cd result)
            = finish input (scanLoop input lb rb (i + 1) cd result)"
            using True z sp c by (subst scanLoop.simps) auto
          also have "\<dots> = result @ map mkToken (scanList lb rb (i + 1) (nat cd)
                (slice input cd (int (i + 1))) (drop (i + 1) input))"
            using "1.IH"(5) [OF True z sp c] True c "1.prems" by auto
          finally show ?thesis using z dr sp c sn ne by auto
        qed
      qed
    qed
  qed
qed

lemma parseTokens_scanList:
  "parseTokens li input =
     map mkToken (scanList (fst (boundaries li input)) (snd (boundaries li input)) 0 0 [] input)"
  using scanLoop_scanList [of 0 input "- 1" "fst (boundaries li input)" "snd (boundaries li input)" "[]"]
  by (simp add: parseTokens_finish)

lemma scanList_plain_fst: "rb \<le> 0 \<Longrightarrow> map fst (scanList lb rb i st cur rest) = wds cur rest"
  by (induction rest arbitrary: i st cur) auto

lemma wds_snoc_space: "wds cur (s @ [32]) = wds cur s"
  by (induction s arbitrary: cur) auto

lemma wds_dropWhileEnd: "wds cur (rev (dropWhile (\<lambda>c. c = 32) (rev s))) = wds cur s"
proof (induction s rule: rev_induct)
  case Nil
  show ?case by simp
next
  case (snoc x xs)
  then show ?case by (simp add: wds_snoc_space)
qed

lemma wds_dropWhile: "wds [] (dropWhile (\<lambda>c. c = 32) s) = wds [] s"
  by (induction s) auto

lemma wds_trim: "wds [] (trimSpaces s) = wds [] s"
  by (simp add: trimSpaces_def wds_dropWhileEnd wds_dropWhile)

lemma wds_nonempty_cur: "cur \<noteq> [] \<Longrightarrow> wds cur s \<noteq> []"
  by (induction s arbitrary: cur) auto

lemma wds_nonempty_last: "s \<noteq> [] \<Longrightarrow> last s \<noteq> 32 \<Longrightarrow> wds cur s \<noteq> []"
proof (induction s arbitrary: cur)
  case Nil
  then show ?case by simp
next
  case (Cons c s)
  show ?case
  proof (cases "s = []")
    case True
    with Cons.prems show ?thesis by simp
  next
    case False
    with Cons show ?thesis by (auto simp: wds_nonempty_cur)
  qed
qed

lemma wds_cons_cur:
  "cur \<noteq> [] \<Longrightarrow> wds (c # cur) s = (c # hd (wds cur s)) # tl (wds cur s)"
  by (induction s arbitrary: cur) auto

lemma join_cons: "joinWith sep (w # ws) = (if ws = [] then w else w @ sep @ joinWith sep ws)"
  by (cases ws) auto

lemma join_cons_head: "ws \<noteq> [] \<Longrightarrow>
  joinWith sep ((c # hd ws) # tl ws) = c # joinWith sep ws"
  by (cases ws) (simp_all add: join_cons)

lemma collapse_join:
  "t = [] \<or> last t \<noteq> 32 \<Longrightarrow>
   collapseSpaces t =
     (if t \<noteq> [] \<and> hd t = 32 then 32 # joinWith [32] (wds [] t) else joinWith [32] (wds [] t))"
proof (induction t rule: collapseSpaces.induct)
  case (1 a b s)
  have tl_ok: "b # s = [] \<or> last (b # s) \<noteq> 32" using "1.prems" by simp
  show ?case
  proof (cases "a = 32")
    case a: True
    show ?thesis
    proof (cases "b = 32")
      case True
      with a "1.IH"(1) tl_ok show ?thesis by simp
    next
      case False
      with a "1.IH"(2) tl_ok show ?thesis by simp
    qed
  next
    case a: False
    show ?thesis
    proof (cases "b = 32")
      case True
      have ne: "wds [] s \<noteq> []"
      proof -
        from "1.prems" True have "s \<noteq> []" "last s \<noteq> 32" by (auto split: if_splits)
        then show ?thesis by (rule wds_nonempty_last)
      qed
      from a True "1.IH"(2) tl_ok ne show ?thesis by (simp add: join_cons)
    next
      case False
      have "wds [a, b] s = (a # hd (wds [b] s)) # tl (wds [b] s)"
        using wds_cons_cur [of "[b]" a s] by simp
      moreover have "wds [b] s \<noteq> []" by (simp add: wds_nonempty_cur)
      ultimately have "joinWith [32] (wds [a, b] s) = a # joinWith [32] (wds [b] s)"
        by (simp add: join_cons_head)
      with a False "1.IH"(2) tl_ok show ?thesis by simp
    qed
  qed
qed auto

lemma last_dropWhile: "dropWhile P xs \<noteq> [] \<Longrightarrow> last (dropWhile P xs) = last xs"
  by (induction xs) (auto split: if_splits)

lemma trim_shape:
  "trimSpaces s = [] \<or> (hd (trimSpaces s) \<noteq> 32 \<and> last (trimSpaces s) \<noteq> 32)"
proof (cases "trimSpaces s = []")
  case True
  then show ?thesis by simp
next
  case False
  let ?d = "dropWhile (\<lambda>c. c = 32) s"
  let ?e = "dropWhile (\<lambda>c. c = 32) (rev ?d)"
  from False have ene: "?e \<noteq> []" by (simp add: trimSpaces_def)
  have dne: "?d \<noteq> []"
  proof
    assume a: "?d = []"
    have "?e = dropWhile (\<lambda>c. c = 32) (rev [])" by (simp only: a)
    with ene show False by simp
  qed
  have hd_d: "hd ?d \<noteq> 32" using dne hd_dropWhile [of "\<lambda>c. c = 32" s] by simp
  have hd_e: "hd ?e \<noteq> 32" using ene hd_dropWhile [of "\<lambda>c. c = 32" "rev ?d"] by simp
  have l: "last (trimSpaces s) \<noteq> 32"
    using ene hd_e by (simp add: trimSpaces_def last_rev)
  have "hd (trimSpaces s) = last ?e"
    using ene by (simp add: trimSpaces_def hd_rev)
  also have "\<dots> = last (rev ?d)" using ene by (rule last_dropWhile)
  also have "\<dots> = hd ?d" using dne by (simp add: last_rev)
  finally show ?thesis using hd_d l by simp
qed

lemma join_wds_normal: "joinWith [32] (wds [] s) = collapseSpaces (trimSpaces s)"
proof -
  have "collapseSpaces (trimSpaces s) = joinWith [32] (wds [] (trimSpaces s))"
    using trim_shape [of s] collapse_join [of "trimSpaces s"] by auto
  then show ?thesis by (simp add: wds_trim)
qed

lemma scanList_plain_runs:
  assumes "rb \<le> 0"
    and "pre = [] \<or> last pre = 32"
    and "32 \<notin> set cur"
    and "i = length pre + length cur"
    and "cur \<noteq> [] \<longrightarrow> st = length pre"
    and "p \<in> set (scanList lb rb i st cur rest)"
  shows "length pre \<le> snd p \<and> runAt (pre @ cur @ rest) (fst p) (snd p)"
  using assms
proof (induction rest arbitrary: i st cur pre)
  case Nil
  then have p: "cur \<noteq> []" "p = (cur, length pre)" by (auto split: if_splits)
  have "pre @ cur @ [] = pre @ cur @ [] \<and> length pre = length pre
        \<and> (pre = [] \<or> last pre = 32) \<and> (([]::jsstring) = [] \<or> hd ([]::jsstring) = 32)"
    using Nil.prems by simp
  then have "\<exists>a b. pre @ cur @ [] = a @ cur @ b \<and> length a = length pre
        \<and> (a = [] \<or> last a = 32) \<and> (b = [] \<or> hd b = 32)" by blast
  with p Nil.prems show ?case by (simp add: runAt_def)
next
  case (Cons c cs)
  show ?case
  proof (cases "c = 32")
    case sp: True
    have step: "p \<in> set (scanList lb rb (i + 1) (i + 1) [] cs) \<Longrightarrow> ?thesis"
    proof -
      assume m: "p \<in> set (scanList lb rb (i + 1) (i + 1) [] cs)"
      have "length (pre @ cur @ [c]) \<le> snd p \<and> runAt ((pre @ cur @ [c]) @ [] @ cs) (fst p) (snd p)"
        by (rule Cons.IH [OF Cons.prems(1) _ _ _ _ m]) (use sp Cons.prems in auto)
      then show ?thesis by simp
    qed
    show ?thesis
    proof (cases "cur = []")
      case True
      with sp Cons.prems(1,6) have "p \<in> set (scanList lb rb (i + 1) (i + 1) [] cs)" by auto
      then show ?thesis by (rule step)
    next
      case False
      with sp Cons.prems(1,6) consider "p = (cur, st)" | "p \<in> set (scanList lb rb (i + 1) (i + 1) [] cs)"
        by auto
      then show ?thesis
      proof cases
        case 1
        have "pre @ cur @ c # cs = pre @ cur @ (c # cs) \<and> length pre = length pre
              \<and> (pre = [] \<or> last pre = 32) \<and> (c # cs = [] \<or> hd (c # cs) = 32)"
          using sp Cons.prems by simp
        then have "\<exists>a b. pre @ cur @ c # cs = a @ cur @ b \<and> length a = length pre
              \<and> (a = [] \<or> last a = 32) \<and> (b = [] \<or> hd b = 32)" by blast
        with 1 False Cons.prems show ?thesis by (simp add: runAt_def)
      next
        case 2
        then show ?thesis by (rule step)
      qed
    qed
  next
    case nsp: False
    with Cons.prems(1,6) have m: "p \<in> set (scanList lb rb (i + 1) (if cur = [] then i else st) (cur @ [c]) cs)"
      by auto
    have "length pre \<le> snd p \<and> runAt (pre @ (cur @ [c]) @ cs) (fst p) (snd p)"
      by (rule Cons.IH [OF Cons.prems(1) _ _ _ _ m]) (use nsp Cons.prems in auto)
    then show ?thesis by simp
  qed
qed

lemma scanList_plain_sorted:
  assumes "rb \<le> 0"
    and "i = length (pre :: jsstring) + length cur"
    and "cur \<noteq> [] \<longrightarrow> st = length pre"
  shows "sorted_wrt (<) (map snd (scanList lb rb i st cur rest))
         \<and> (\<forall>p \<in> set (scanList lb rb i st cur rest). length pre \<le> snd p)"
  using assms
proof (induction rest arbitrary: i st cur pre)
  case Nil
  then show ?case by auto
next
  case (Cons c cs)
  show ?case
  proof (cases "c = 32")
    case sp: True
    have ih: "sorted_wrt (<) (map snd (scanList lb rb (i + 1) (i + 1) [] cs))
         \<and> (\<forall>p \<in> set (scanList lb rb (i + 1) (i + 1) [] cs). length (pre @ cur @ [c]) \<le> snd p)"
      by (rule Cons.IH) (use Cons.prems in auto)
    from ih have le: "\<And>p. p \<in> set (scanList lb rb (i + 1) (i + 1) [] cs) \<Longrightarrow> Suc (length pre + length cur) \<le> snd p"
      by fastforce
    show ?thesis
    proof (cases "cur = []")
      case True
      with sp ih Cons.prems(1) le show ?thesis by (fastforce simp: Suc_le_eq)
    next
      case False
      with sp ih Cons.prems le show ?thesis by (fastforce simp: Suc_le_eq)
    qed
  next
    case nsp: False
    have ih: "sorted_wrt (<) (map snd (scanList lb rb (i + 1) (if cur = [] then i else st) (cur @ [c]) cs))
         \<and> (\<forall>p \<in> set (scanList lb rb (i + 1) (if cur = [] then i else st) (cur @ [c]) cs). length pre \<le> snd p)"
      by (rule Cons.IH) (use Cons.prems in auto)
    show ?thesis using nsp ih Cons.prems by auto
  qed
qed

lemma no_invalid_boundaries:
  assumes "\<forall>c \<in> set input. \<not> isInvalidChar c"
  shows "boundaries li input = (int (length input), - 1)"
proof -
  have "indicesFrom k isInvalidChar xs = []" if "\<forall>c \<in> set xs. \<not> isInvalidChar c" for k xs
    using that by (induction xs arbitrary: k) auto
  then have "matchAllInvalid li input = []"
    using assms by (auto simp: matchAllInvalid_def dest: in_set_dropD)
  then show ?thesis by (simp add: boundaries_def)
qed

lemma wds_all_space: "set s \<subseteq> {32} \<Longrightarrow> wds [] s = []"
  by (induction s) auto

lemma indicesFrom_empty: "(indicesFrom k P xs = []) = (\<forall>x \<in> set xs. \<not> P x)"
  by (induction xs arbitrary: k) auto

lemma indicesFrom_first:
  "indicesFrom k P xs = f # r \<Longrightarrow>
     k \<le> f \<and> f - k < length xs \<and> P (xs ! (f - k)) \<and> (\<forall>j < f - k. \<not> P (xs ! j))"
proof (induction xs arbitrary: k)
  case Nil
  then show ?case by simp
next
  case (Cons x xs)
  show ?case
  proof (cases "P x")
    case True
    with Cons.prems show ?thesis by simp
  next
    case False
    with Cons.prems have "indicesFrom (k + 1) P xs = f # r" by simp
    from Cons.IH [OF this]
    have ih: "k + 1 \<le> f" "f - (k + 1) < length xs" "P (xs ! (f - (k + 1)))"
      "\<forall>j < f - (k + 1). \<not> P (xs ! j)" by auto
    have "\<not> P ((x # xs) ! j)" if "j < f - k" for j
    proof (cases j)
      case 0
      with False show ?thesis by simp
    next
      case (Suc m)
      with that ih(4) show ?thesis by simp
    qed
    with ih show ?thesis by (auto simp: nth_Cons')
  qed
qed

lemma indicesFrom_last:
  "indicesFrom k P xs \<noteq> [] \<Longrightarrow>
     k \<le> last (indicesFrom k P xs) \<and> last (indicesFrom k P xs) - k < length xs \<and>
     P (xs ! (last (indicesFrom k P xs) - k)) \<and>
     (\<forall>j. last (indicesFrom k P xs) - k < j \<and> j < length xs \<longrightarrow> \<not> P (xs ! j))"
proof (induction xs arbitrary: k)
  case Nil
  then show ?case by simp
next
  case (Cons x xs)
  show ?case
  proof (cases "indicesFrom (k + 1) P xs = []")
    case True
    with Cons.prems have px: "P x" and l: "last (indicesFrom k P (x # xs)) = k"
      by (auto split: if_splits)
    from True have "\<forall>y \<in> set xs. \<not> P y" by (simp add: indicesFrom_empty)
    then have "\<not> P ((x # xs) ! j)" if "0 < j" "j < length (x # xs)" for j
      using that by (cases j) auto
    with px l show ?thesis by simp
  next
    case False
    then have l: "last (indicesFrom k P (x # xs)) = last (indicesFrom (k + 1) P xs)"
      by simp
    let ?l = "last (indicesFrom (k + 1) P xs)"
    from Cons.IH [OF False]
    have ih: "k + 1 \<le> ?l" "?l - (k + 1) < length xs" "P (xs ! (?l - (k + 1)))"
      "\<forall>j. ?l - (k + 1) < j \<and> j < length xs \<longrightarrow> \<not> P (xs ! j)" by auto
    have "\<not> P ((x # xs) ! j)" if "?l - k < j" "j < length (x # xs)" for j
    proof (cases j)
      case 0
      with that show ?thesis by simp
    next
      case (Suc m)
      with that ih(1) have "?l - (k + 1) < m \<and> m < length xs" by auto
      with ih(4) Suc show ?thesis by simp
    qed
    with ih l show ?thesis by (auto simp: nth_Cons')
  qed
qed

lemma lastIndexOf_props:
  "lastIndexOf s c n = - 1 \<or>
     (0 \<le> lastIndexOf s c n \<and> lastIndexOf s c n \<le> int n \<and>
      nat (lastIndexOf s c n) < length s \<and> s ! nat (lastIndexOf s c n) = c)"
proof (induction n)
  case 0
  show ?case by simp
next
  case (Suc n)
  have "nat (int (Suc n)) = Suc n" by (rule nat_int)
  with Suc show ?case by (cases "Suc n < length s \<and> s ! Suc n = c") (auto simp del: of_nat_Suc)
qed

lemma lastIndexOf_none_between:
  "lastIndexOf s c n < int j \<Longrightarrow> j \<le> n \<Longrightarrow> j < length s \<Longrightarrow> s ! j \<noteq> c"
proof (induction n)
  case 0
  then show ?case by (auto split: if_splits)
next
  case (Suc n)
  then show ?case by (cases "j = Suc n") (auto split: if_splits)
qed

lemma indexOf_props:
  assumes "from \<le> length s"
  shows "indexOf s c from = - 1 \<or>
     (int from \<le> indexOf s c from \<and> nat (indexOf s c from) < length s \<and>
      s ! nat (indexOf s c from) = c)"
proof (cases "indicesFrom from (\<lambda>x. x = c) (drop from s)")
  case Nil
  then show ?thesis by (simp add: indexOf_def)
next
  case (Cons f r)
  from indicesFrom_first [OF Cons] assms
  have "from \<le> f" "f < length s" "s ! f = c" by auto
  with Cons show ?thesis by (simp add: indexOf_def)
qed

lemma indexOf_none_between:
  assumes "from \<le> j" "j < length s" "indexOf s c from = - 1 \<or> int j < indexOf s c from"
  shows "s ! j \<noteq> c"
proof (cases "indicesFrom from (\<lambda>x. x = c) (drop from s)")
  case Nil
  then have "\<forall>x \<in> set (drop from s). x \<noteq> c" by (simp add: indicesFrom_empty)
  moreover have "s ! j \<in> set (drop from s)"
  proof -
    have "drop from s ! (j - from) = s ! j" using assms(1,2) by simp
    moreover have "j - from < length (drop from s)" using assms(1,2) by simp
    ultimately show ?thesis by (metis nth_mem)
  qed
  ultimately show ?thesis by blast
next
  case (Cons f r)
  from indicesFrom_first [OF Cons]
  have f: "from \<le> f" "\<forall>k < f - from. drop from s ! k \<noteq> c" by auto
  from Cons assms(3) have "j < f" by (simp add: indexOf_def)
  with assms(1) f(2) have "drop from s ! (j - from) \<noteq> c" by auto
  with assms(1,2) show ?thesis by simp
qed

lemma scanList_zone_cong:
  assumes "\<And>j. i \<le> j \<Longrightarrow> j < i + length rest \<Longrightarrow>
             (lb < int j \<and> int j < rb) = (lb' < int j \<and> int j < rb')"
  shows "scanList lb rb i st cur rest = scanList lb' rb' i st cur rest"
  using assms
proof (induction rest arbitrary: i st cur)
  case Nil
  show ?case by simp
next
  case (Cons c cs)
  have z: "(lb < int i \<and> int i < rb) = (lb' < int i \<and> int i < rb')"
    by (rule Cons.prems) simp_all
  have ih: "scanList lb rb (i + 1) st' cur' cs = scanList lb' rb' (i + 1) st' cur' cs" for st' cur'
    by (rule Cons.IH) (use Cons.prems in simp)
  show ?case using z ih by (simp del: of_nat_Suc)
qed

lemma scanList_shift:
  "scanList (int k + lb) (int k + rb) (k + i) (k + st) cur rest =
     map (\<lambda>p. (fst p, k + snd p)) (scanList lb rb i st cur rest)"
proof (induction rest arbitrary: i st cur)
  case Nil
  show ?case by simp
next
  case (Cons c cs)
  have ih: "scanList (int k + lb) (int k + rb) (k + i + 1) (k + st') cur' cs =
     map (\<lambda>p. (fst p, k + snd p)) (scanList lb rb (i + 1) st' cur' cs)" for st' cur'
    using Cons.IH [of "i + 1" st' cur'] by (simp add: add.assoc)
  have ih': "scanList (int k + lb) (int k + rb) (k + i + 1) (k + i + 1) cur' cs =
     map (\<lambda>p. (fst p, k + snd p)) (scanList lb rb (i + 1) (i + 1) cur' cs)" for cur'
    using ih [of "i + 1" cur'] by (simp add: add.assoc)
  show ?case using ih ih' by (simp del: of_nat_Suc add: add.assoc)
qed

lemma scanList_split:
  assumes "\<not> (lb < int (i + length xs) \<and> int (i + length xs) < rb)"
  shows "scanList lb rb i st cur (xs @ 32 # ys) =
     scanList lb rb i st cur xs @ scanList lb rb (i + length xs + 1) (i + length xs + 1) [] ys"
  using assms
proof (induction xs arbitrary: i st cur)
  case Nil
  then show ?case by simp
next
  case (Cons c cs)
  have ih: "scanList lb rb (i + 1) st' cur' (cs @ 32 # ys) =
     scanList lb rb (i + 1) st' cur' cs @
     scanList lb rb (i + length (c # cs) + 1) (i + length (c # cs) + 1) [] ys" for st' cur'
    using Cons.IH [of "i + 1" st' cur'] Cons.prems by (simp add: add.assoc)
  show ?case using ih by (simp del: of_nat_Suc)
qed

lemma scanList_skip:
  assumes "\<And>j. i \<le> j \<Longrightarrow> j < i + length zs \<Longrightarrow> lb < int j \<and> int j < rb"
  shows "scanList lb rb i i [] (zs @ ys) = scanList lb rb (i + length zs) (i + length zs) [] ys"
  using assms
proof (induction zs arbitrary: i)
  case Nil
  show ?case by simp
next
  case (Cons c cs)
  have z: "lb < int i \<and> int i < rb" by (rule Cons.prems) simp_all
  have "scanList lb rb (i + 1) (i + 1) [] (cs @ ys) =
        scanList lb rb (i + 1 + length cs) (i + 1 + length cs) [] ys"
    by (rule Cons.IH) (use Cons.prems in simp)
  with z show ?case by (simp del: of_nat_Suc add: add.assoc)
qed

lemma parseTokens_plain:
  assumes "\<forall>c \<in> set input. \<not> isInvalidChar c"
  shows "parseTokens li input = map mkToken (scanList lb (- 1) 0 0 [] input)"
proof -
  have "parseTokens li input = map mkToken (scanList (int (length input)) (- 1) 0 0 [] input)"
    by (simp add: parseTokens_scanList no_invalid_boundaries [OF assms])
  also have "scanList (int (length input)) (- 1) 0 0 [] input = scanList lb (- 1) 0 0 [] input"
    by (rule scanList_zone_cong) simp
  finally show ?thesis .
qed

lemma tail_phase:
  assumes "\<forall>c \<in> set S. \<not> isInvalidChar c" and "rb \<le> int r"
  shows "map mkToken (scanList lb rb r r [] S) = map (shiftToken (int r)) (parseTokens li S)"
proof -
  have "scanList lb rb r r [] S = scanList (int r) (int r - 1) r r [] S"
  proof (rule scanList_zone_cong)
    fix j assume "r \<le> j"
    then show "(lb < int j \<and> int j < rb) = (int r < int j \<and> int j < int r - 1)"
      using assms(2) by linarith
  qed
  also have "\<dots> = map (\<lambda>p. (fst p, r + snd p)) (scanList 0 (- 1) 0 0 [] S)"
    using scanList_shift [of r 0 "- 1" 0 0 "[]" S] by simp
  finally have "map mkToken (scanList lb rb r r [] S)
      = map mkToken (map (\<lambda>p. (fst p, r + snd p)) (scanList 0 (- 1) 0 0 [] S))" by (rule arg_cong)
  also have "\<dots> = map (shiftToken (int r)) (map mkToken (scanList 0 (- 1) 0 0 [] S))"
    by (simp add: mkToken_def shiftToken_def)
  also have "map mkToken (scanList 0 (- 1) 0 0 [] S) = parseTokens li S"
    by (rule parseTokens_plain [OF assms(1), symmetric])
  finally show ?thesis .
qed

lemma head_phase:
  assumes "\<forall>c \<in> set P. \<not> isInvalidChar c" and "int (length P) \<le> lb"
  shows "map mkToken (scanList lb rb 0 0 [] P) = parseTokens li P"
proof -
  have "scanList lb rb 0 0 [] P = scanList 0 (- 1) 0 0 [] P"
  proof (rule scanList_zone_cong)
    fix j assume "j < 0 + length P"
    then show "(lb < int j \<and> int j < rb) = (0 < int j \<and> int j < - 1)"
      using assms(2) by linarith
  qed
  then show ?thesis by (simp only: parseTokens_plain [OF assms(1), of li 0])
qed

lemma zone_facts:
  assumes "\<exists>c \<in> set input. isInvalidChar c"
  obtains f l where
    "f < length input" "l < length input" "f \<le> l"
    "isInvalidChar (input ! f)" "isInvalidChar (input ! l)"
    "\<forall>j < f. \<not> isInvalidChar (input ! j)"
    "\<forall>j. l < j \<and> j < length input \<longrightarrow> \<not> isInvalidChar (input ! j)"
    "boundaries 0 input =
       (lastIndexOf input 32 f,
        if indexOf input 32 l = - 1 then int (length input) else indexOf input 32 l)"
proof -
  let ?ms = "indicesFrom 0 isInvalidChar input"
  from assms have ne: "?ms \<noteq> []" by (simp add: indicesFrom_empty)
  then obtain f r where ms: "?ms = f # r" by (cases ?ms) auto
  from indicesFrom_first [OF ms]
  have f: "f < length input" "isInvalidChar (input ! f)" "\<forall>j < f. \<not> isInvalidChar (input ! j)"
    by auto
  let ?l = "last ?ms"
  from indicesFrom_last [OF ne]
  have l: "?l < length input" "isInvalidChar (input ! ?l)"
    "\<forall>j. ?l < j \<and> j < length input \<longrightarrow> \<not> isInvalidChar (input ! j)" by auto
  have fl: "f \<le> ?l"
  proof (rule ccontr)
    assume "\<not> f \<le> ?l"
    then have "?l < f" by simp
    with f(3) l(2) show False by blast
  qed
  have b: "boundaries 0 input =
       (lastIndexOf input 32 f,
        if indexOf input 32 ?l = - 1 then int (length input) else indexOf input 32 ?l)"
    using ms by (simp add: boundaries_def matchAllInvalid_def Let_def)
  show ?thesis by (rule that [OF f(1) l(1) fl f(2) l(2) f(3) l(3) b])
qed

lemma zone_order:
  assumes "\<exists>c \<in> set input. isInvalidChar c"
  shows "- 1 \<le> fst (boundaries 0 input) \<and>
         fst (boundaries 0 input) < snd (boundaries 0 input) \<and>
         snd (boundaries 0 input) \<le> int (length input) \<and>
         (fst (boundaries 0 input) = - 1 \<or> input ! nat (fst (boundaries 0 input)) = 32) \<and>
         (snd (boundaries 0 input) = int (length input) \<or> input ! nat (snd (boundaries 0 input)) = 32) \<and>
         (\<forall>c \<in> set (take (nat (fst (boundaries 0 input))) input). \<not> isInvalidChar c) \<and>
         (\<forall>c \<in> set (drop (nat (snd (boundaries 0 input))) input). \<not> isInvalidChar c)"
proof -
  from assms obtain f l where
    f: "f < length input" and l: "l < length input" and fl: "f \<le> l"
    and pf: "isInvalidChar (input ! f)" and pl: "isInvalidChar (input ! l)"
    and bf: "\<forall>j < f. \<not> isInvalidChar (input ! j)"
    and al: "\<forall>j. l < j \<and> j < length input \<longrightarrow> \<not> isInvalidChar (input ! j)"
    and b: "boundaries 0 input =
       (lastIndexOf input 32 f,
        if indexOf input 32 l = - 1 then int (length input) else indexOf input 32 l)"
    by (rule zone_facts)
  let ?lb = "lastIndexOf input 32 f"
  let ?r = "indexOf input 32 l"
  let ?rb = "if ?r = - 1 then int (length input) else ?r"
  have nsp: "\<not> isInvalidChar 32" by (simp add: isInvalidChar_def)
  have lb: "?lb = - 1 \<or> (0 \<le> ?lb \<and> ?lb < int f \<and> input ! nat ?lb = 32)"
  proof -
    from lastIndexOf_props [of input 32 f]
    consider "?lb = - 1" | "0 \<le> ?lb" "?lb \<le> int f" "input ! nat ?lb = 32" by blast
    then show ?thesis
    proof cases
      case 1
      then show ?thesis by simp
    next
      case 2
      have "nat ?lb \<noteq> f" using 2(3) pf nsp by auto
      with 2 show ?thesis by auto
    qed
  qed
  have rb: "int l < ?rb \<and> ?rb \<le> int (length input) \<and>
            (?rb = int (length input) \<or> input ! nat ?rb = 32)"
  proof (cases "?r = - 1")
    case True
    with l show ?thesis by simp
  next
    case False
    with indexOf_props [of l input 32] l
    have r: "int l \<le> ?r" "nat ?r < length input" "input ! nat ?r = 32" by auto
    have "nat ?r \<noteq> l" using r(3) pl nsp by auto
    with r False show ?thesis by auto
  qed
  have pre: "\<forall>c \<in> set (take (nat ?lb) input). \<not> isInvalidChar c"
  proof
    fix c assume "c \<in> set (take (nat ?lb) input)"
    then obtain j where "j < nat ?lb" "j < length input" "c = input ! j"
      by (auto simp: in_set_conv_nth)
    moreover from lb have "nat ?lb \<le> f" by auto
    ultimately show "\<not> isInvalidChar c" using bf by auto
  qed
  have suf: "\<forall>c \<in> set (drop (nat ?rb) input). \<not> isInvalidChar c"
  proof
    fix c assume "c \<in> set (drop (nat ?rb) input)"
    then obtain j where "j < length input - nat ?rb" "c = input ! (nat ?rb + j)"
      by (auto simp: in_set_conv_nth)
    moreover from rb have "l < nat ?rb" by auto
    ultimately show "\<not> isInvalidChar c" using al by auto
  qed
  from lb rb fl pre suf show ?thesis unfolding b fst_conv snd_conv by auto
qed

lemma parseTokens_zone_split:
  assumes "\<exists>c \<in> set input. isInvalidChar c"
  shows "parseTokens 0 input =
         parseTokens 0 (take (nat (fst (boundaries 0 input))) input) @
         map (shiftToken (snd (boundaries 0 input)))
           (parseTokens 0 (drop (nat (snd (boundaries 0 input))) input))"
proof -
  let ?lb = "fst (boundaries 0 input)"
  let ?rb = "snd (boundaries 0 input)"
  let ?P = "take (nat ?lb) input"
  let ?S = "drop (nat ?rb) input"
  from zone_order [OF assms]
  have o: "- 1 \<le> ?lb" "?lb < ?rb" "?rb \<le> int (length input)"
    and sp: "?lb = - 1 \<or> input ! nat ?lb = 32"
    and pre: "\<forall>c \<in> set ?P. \<not> isInvalidChar c"
    and suf: "\<forall>c \<in> set ?S. \<not> isInvalidChar c" by auto
  have rbn: "int (nat ?rb) = ?rb" using o by simp
  have tail: "map mkToken (scanList ?lb ?rb (nat ?rb) (nat ?rb) [] ?S)
              = map (shiftToken ?rb) (parseTokens 0 ?S)"
    using tail_phase [OF suf, of ?rb "nat ?rb" ?lb 0] rbn by simp
  show ?thesis
  proof (cases "?lb = - 1")
    case True
    let ?Z = "take (nat ?rb) input"
    have "scanList ?lb ?rb 0 0 [] (?Z @ ?S)
          = scanList ?lb ?rb (0 + length ?Z) (0 + length ?Z) [] ?S"
    proof (rule scanList_skip)
      fix j assume "0 \<le> j" "j < 0 + length ?Z"
      then have "j < nat ?rb" by simp
      then show "?lb < int j \<and> int j < ?rb" using True by linarith
    qed
    moreover have "length ?Z = nat ?rb" using o by simp
    ultimately have "scanList ?lb ?rb 0 0 [] input = scanList ?lb ?rb (nat ?rb) (nat ?rb) [] ?S"
      by simp
    moreover have "parseTokens 0 ?P = []"
      using True by (simp add: parseTokens_plain [of "[]" 0 0])
    ultimately show ?thesis using tail by (simp add: parseTokens_scanList)
  next
    case False
    with o sp have lb0: "0 \<le> ?lb" and spc: "input ! nat ?lb = 32" by auto
    let ?n = "nat ?lb"
    have n: "?n < length input" "?n + 1 \<le> nat ?rb" "nat ?rb \<le> length input"
      using o lb0 by auto
    let ?Z = "take (nat ?rb - (?n + 1)) (drop (?n + 1) input)"
    have dz: "drop (?n + 1) input = ?Z @ ?S"
    proof -
      have "drop (nat ?rb - (?n + 1)) (drop (?n + 1) input) = ?S" using n by simp
      then show ?thesis
        using append_take_drop_id [of "nat ?rb - (?n + 1)" "drop (?n + 1) input"] by simp
    qed
    have inp: "input = ?P @ 32 # (?Z @ ?S)"
      using id_take_nth_drop [OF n(1)] spc dz by simp
    have lenP: "length ?P = ?n" using n by simp
    have lenZ: "length ?Z = nat ?rb - (?n + 1)" using n by simp
    have "scanList ?lb ?rb 0 0 [] (?P @ 32 # (?Z @ ?S))
          = scanList ?lb ?rb 0 0 [] ?P
            @ scanList ?lb ?rb (0 + length ?P + 1) (0 + length ?P + 1) [] (?Z @ ?S)"
      by (rule scanList_split) (use lenP lb0 in simp)
    moreover have "scanList ?lb ?rb (?n + 1) (?n + 1) [] (?Z @ ?S)
          = scanList ?lb ?rb (?n + 1 + length ?Z) (?n + 1 + length ?Z) [] ?S"
    proof (rule scanList_skip)
      fix j assume "?n + 1 \<le> j" "j < ?n + 1 + length ?Z"
      then have "?n < j" "j < nat ?rb" using lenZ n by linarith+
      then show "?lb < int j \<and> int j < ?rb" using lb0 by linarith
    qed
    moreover have "?n + 1 + length ?Z = nat ?rb" using lenZ n by simp
    ultimately have "scanList ?lb ?rb 0 0 [] (?P @ 32 # (?Z @ ?S))
          = scanList ?lb ?rb 0 0 [] ?P @ scanList ?lb ?rb (nat ?rb) (nat ?rb) [] ?S"
      using lenP by simp
    moreover have "scanList ?lb ?rb 0 0 [] input = scanList ?lb ?rb 0 0 [] (?P @ 32 # (?Z @ ?S))"
      by (rule arg_cong [where f = "scanList ?lb ?rb 0 0 []", OF inp])
    ultimately have "map mkToken (scanList ?lb ?rb 0 0 [] input)
          = map mkToken (scanList ?lb ?rb 0 0 [] ?P) @ map (shiftToken ?rb) (parseTokens 0 ?S)"
      using tail by (simp only: map_append)
    moreover have "map mkToken (scanList ?lb ?rb 0 0 [] ?P) = parseTokens 0 ?P"
      by (rule head_phase [OF pre]) (use lenP lb0 in simp)
    ultimately show ?thesis by (simp add: parseTokens_scanList)
  qed
qed


subsection \<open>Inputs without brackets\<close>

lemma runAt_isRunAt: "runAt input w off \<Longrightarrow> isRunAt input w off"
proof -
  assume r: "runAt input w off"
  then obtain a b where d: "input = a @ w @ b" "length a = off"
    "a = [] \<or> last a = 32" "b = [] \<or> hd b = 32" and w: "w \<noteq> []" "32 \<notin> set w"
    by (auto simp: runAt_def)
  have t: "take (length w) (drop off input) = w" using d(1,2) by simp
  have l: "off = 0 \<or> input ! (off - 1) = 32"
  proof (cases "a = []")
    case True
    with d(2) show ?thesis by simp
  next
    case False
    with d(3) have "last a = 32" by simp
    moreover have "input ! (off - 1) = last a"
    proof -
      from False d(2) have "off - 1 < length a" by (cases a) auto
      then have "input ! (off - 1) = a ! (off - 1)" unfolding d(1) by (simp add: nth_append)
      with False d(2) show ?thesis by (simp add: last_conv_nth)
    qed
    ultimately show ?thesis by simp
  qed
  have e: "off + length w = length input \<or> input ! (off + length w) = 32"
  proof (cases "b = []")
    case True
    with d(1,2) show ?thesis by simp
  next
    case False
    with d(4) have "hd b = 32" by simp
    moreover have "input ! (off + length w) = hd b"
    proof -
      have "input = (a @ w) @ b" by (simp add: d(1))
      then have "input ! (off + length w) = b ! 0"
        using d(2) by (metis length_append nth_append_length_plus add.right_neutral)
      with False show ?thesis by (simp add: hd_conv_nth)
    qed
    ultimately show ?thesis by simp
  qed
  from w t l e show ?thesis by (simp add: isRunAt_def)
qed

text \<open>
  Claim C6. For an input without any of the units of ()[]<>{}, whatever the \<open>lastIndex\<close>
  of the pattern: the tokens joined by single spaces are the input with its leading and
  trailing spaces removed and every run of spaces collapsed to one; every token is a
  maximal run of non-space units that starts at the token's \<open>characterDelta\<close>, and the
  offsets increase; an input of spaces only (the empty input too) gives no token.
\<close>

theorem parseTokens_without_brackets:
  assumes "\<forall>c \<in> set input. \<not> isInvalidChar c"
  shows "joinWith [32] (map token (parseTokens li input)) = collapseSpaces (trimSpaces input)
       \<and> (\<forall>t \<in> set (parseTokens li input).
             0 \<le> characterDelta t \<and> isRunAt input (token t) (nat (characterDelta t)))
       \<and> sorted_wrt (<) (map characterDelta (parseTokens li input))
       \<and> (set input \<subseteq> {32} \<longrightarrow> parseTokens li input = [])"
proof -
  let ?l = "scanList 0 (- 1) 0 0 [] input"
  have p: "parseTokens li input = map mkToken ?l"
    by (rule parseTokens_plain [OF assms])
  have f: "map fst ?l = wds [] input" by (rule scanList_plain_fst) simp
  have tk: "map token (parseTokens li input) = wds [] input"
    using f by (simp add: p mkToken_def comp_def)
  have j: "joinWith [32] (map token (parseTokens li input)) = collapseSpaces (trimSpaces input)"
    by (simp only: tk join_wds_normal)
  have r: "\<forall>t \<in> set (parseTokens li input).
             0 \<le> characterDelta t \<and> isRunAt input (token t) (nat (characterDelta t))"
  proof
    fix t assume "t \<in> set (parseTokens li input)"
    then obtain q where q: "q \<in> set ?l" "t = mkToken q" by (auto simp: p)
    have "length ([]::jsstring) \<le> snd q \<and> runAt ([] @ [] @ input) (fst q) (snd q)"
      by (rule scanList_plain_runs [where rb = "- 1" and lb = 0 and i = 0 and st = 0, OF _ _ _ _ _ q(1)])
         simp_all
    then have "isRunAt input (fst q) (snd q)" by (simp add: runAt_isRunAt)
    with q(2) show "0 \<le> characterDelta t \<and> isRunAt input (token t) (nat (characterDelta t))"
      by (simp add: mkToken_def)
  qed
  have s: "sorted_wrt (<) (map characterDelta (parseTokens li input))"
  proof -
    have "sorted_wrt (<) (map snd ?l)"
      using scanList_plain_sorted [of "- 1" 0 "[]" "[]" 0 0 input] by simp
    then have "sorted_wrt (<) (map (\<lambda>q. int (snd q)) ?l)"
      by (simp add: sorted_wrt_map)
    then show ?thesis by (simp add: p mkToken_def comp_def)
  qed
  have e: "set input \<subseteq> {32} \<longrightarrow> parseTokens li input = []"
  proof
    assume "set input \<subseteq> {32}"
    then have "wds [] input = []" by (rule wds_all_space)
    with tk show "parseTokens li input = []" by simp
  qed
  from j r s e show ?thesis by blast
qed

theorem parseTokens_without_brackets_witness:
  "joinWith [32] (map token (parseTokens 0 (js ''  ab  c ''))) = js ''ab c''
   \<and> parseTokens 0 (js ''  ab  c '') =
       [\<lparr>token = js ''ab'', characterDelta = 2\<rparr>, \<lparr>token = js ''c'', characterDelta = 6\<rparr>]
   \<and> parseTokens 0 (js ''   '') = []"
proof -
  have h: "\<forall>c \<in> set (js ''  ab  c ''). \<not> isInvalidChar c"
    by (simp add: js_def isInvalidChar_def)
  have h2: "\<forall>c \<in> set (js ''   ''). \<not> isInvalidChar c"
    by (simp add: js_def isInvalidChar_def)
  have n: "collapseSpaces (trimSpaces (js ''  ab  c '')) = js ''ab c''"
    by (simp add: js_def trimSpaces_def)
  have v: "parseTokens 0 (js ''  ab  c '') =
       [\<lparr>token = js ''ab'', characterDelta = 2\<rparr>, \<lparr>token = js ''c'', characterDelta = 6\<rparr>]"
    by (simp add: parseTokens_def boundaries_def matchAllInvalid_def js_def isInvalidChar_def
        scanLoop.simps slice_def)
  have e: "parseTokens 0 (js ''   '') = []"
    using parseTokens_without_brackets [OF h2, of 0] by (simp add: js_def)
  from parseTokens_without_brackets [OF h, of 0] n v e show ?thesis by simp
qed

subsection \<open>The protected zone\<close>

text \<open>
  Claim C1, as amended. For an input with at least one of the units of ()[]<>{}, and the
  \<open>lastIndex\<close> of the pattern at 0: the left boundary is the index of the last space
  before the first such unit (\<open>-1\<close> if there is none), the right boundary the index of
  the first space after the last such unit (the length if there is none); nothing
  strictly between the two boundaries is a separator or part of a token, and the result
  is the tokens of the text before the left boundary followed by the tokens of the text
  from the right boundary on, at their offsets in the whole input.
\<close>

theorem parseTokens_protected_zone:
  assumes "\<exists>c \<in> set input. isInvalidChar c"
  shows "case boundaries 0 input of (leftBoundary, rightBoundary) \<Rightarrow>
           - 1 \<le> leftBoundary \<and> leftBoundary < rightBoundary
           \<and> rightBoundary \<le> int (length input)
           \<and> (leftBoundary = - 1 \<or> input ! nat leftBoundary = 32)
           \<and> (rightBoundary = int (length input) \<or> input ! nat rightBoundary = 32)
           \<and> (\<forall>c \<in> set (take (nat leftBoundary) input). \<not> isInvalidChar c)
           \<and> (\<forall>c \<in> set (drop (nat rightBoundary) input). \<not> isInvalidChar c)
           \<and> (\<forall>j. leftBoundary < int j \<and> j \<le> hd (matchAllInvalid 0 input) \<longrightarrow> input ! j \<noteq> 32)
           \<and> (\<forall>j. last (matchAllInvalid 0 input) \<le> j \<and> int j < rightBoundary \<longrightarrow> input ! j \<noteq> 32)
           \<and> parseTokens 0 input =
               parseTokens 0 (take (nat leftBoundary) input) @
               map (shiftToken rightBoundary) (parseTokens 0 (drop (nat rightBoundary) input))"
proof -
  let ?ms = "matchAllInvalid 0 input"
  have ms: "?ms = indicesFrom 0 isInvalidChar input" by (simp add: matchAllInvalid_def)
  from assms have ne: "?ms \<noteq> []" by (simp add: ms indicesFrom_empty)
  then obtain f r where fr: "?ms = f # r" by (cases ?ms) auto
  have b: "boundaries 0 input =
       (lastIndexOf input 32 (hd ?ms),
        if indexOf input 32 (last ?ms) = - 1 then int (length input)
        else indexOf input 32 (last ?ms))"
    using fr by (simp add: boundaries_def Let_def)
  have flen: "hd ?ms < length input"
    using indicesFrom_first [of 0 isInvalidChar input f r] fr ms by simp
  have llen: "last ?ms < length input"
    using indicesFrom_last [of 0 isInvalidChar input] ne ms by simp
  note o = zone_order [OF assms]
  have l: "\<forall>j. fst (boundaries 0 input) < int j \<and> j \<le> hd ?ms \<longrightarrow> input ! j \<noteq> 32"
  proof (intro allI impI)
    fix j assume j: "fst (boundaries 0 input) < int j \<and> j \<le> hd ?ms"
    show "input ! j \<noteq> 32"
      by (rule lastIndexOf_none_between [of input 32 "hd ?ms" j]) (use j b flen in auto)
  qed
  have r: "\<forall>j. last ?ms \<le> j \<and> int j < snd (boundaries 0 input) \<longrightarrow> input ! j \<noteq> 32"
  proof (intro allI impI)
    fix j assume j: "last ?ms \<le> j \<and> int j < snd (boundaries 0 input)"
    have jl: "j < length input" using j o by linarith
    show "input ! j \<noteq> 32"
      by (rule indexOf_none_between [of "last ?ms" j input 32])
         (use j b jl in \<open>auto split: if_splits\<close>)
  qed
  from o l r parseTokens_zone_split [OF assms] show ?thesis
    by (simp add: case_prod_beta)
qed

theorem parseTokens_protected_zone_witness:
  "boundaries 0 (js ''a (b c) d e'') = (1, 7)
   \<and> parseTokens 0 (take 1 (js ''a (b c) d e'')) = [\<lparr>token = js ''a'', characterDelta = 0\<rparr>]
   \<and> parseTokens 0 (drop 7 (js ''a (b c) d e'')) =
       [\<lparr>token = js ''d'', characterDelta = 1\<rparr>, \<lparr>token = js ''e'', characterDelta = 3\<rparr>]
   \<and> parseTokens 0 (js ''a (b c) d e'') =
       [\<lparr>token = js ''a'', characterDelta = 0\<rparr>, \<lparr>token = js ''d'', characterDelta = 8\<rparr>,
        \<lparr>token = js ''e'', characterDelta = 10\<rparr>]"
proof -
  have h: "\<exists>c \<in> set (js ''a (b c) d e''). isInvalidChar c"
    by (simp add: js_def isInvalidChar_def)
  have b: "boundaries 0 (js ''a (b c) d e'') = (1, 7)"
    by (simp add: boundaries_def matchAllInvalid_def js_def isInvalidChar_def indexOf_def)
  have p: "parseTokens 0 (take 1 (js ''a (b c) d e'')) = [\<lparr>token = js ''a'', characterDelta = 0\<rparr>]"
    by (simp add: parseTokens_def boundaries_def matchAllInvalid_def js_def isInvalidChar_def
        scanLoop.simps slice_def)
  have s: "parseTokens 0 (drop 7 (js ''a (b c) d e'')) =
       [\<lparr>token = js ''d'', characterDelta = 1\<rparr>, \<lparr>token = js ''e'', characterDelta = 3\<rparr>]"
    by (simp add: parseTokens_def boundaries_def matchAllInvalid_def js_def isInvalidChar_def
        scanLoop.simps slice_def)
  have "parseTokens 0 (js ''a (b c) d e'') =
        parseTokens 0 (take (nat 1) (js ''a (b c) d e'')) @
        map (shiftToken 7) (parseTokens 0 (drop (nat 7) (js ''a (b c) d e'')))"
    using parseTokens_protected_zone [OF h] by (simp add: b)
  then have "parseTokens 0 (js ''a (b c) d e'') =
       [\<lparr>token = js ''a'', characterDelta = 0\<rparr>, \<lparr>token = js ''d'', characterDelta = 8\<rparr>,
        \<lparr>token = js ''e'', characterDelta = 10\<rparr>]"
    using p s by (simp add: shiftToken_def)
  with b p s show ?thesis by simp
qed

text \<open>
  The claim as first stated asks that the run overlapping the zone be emitted as one
  token. It is dropped: of \<open>a (b c) d\<close> only \<open>a\<close> and \<open>d\<close> are returned.
\<close>

theorem parseTokens_zone_counterexample:
  "parseTokens 0 (js ''a (b c) d'') =
     [\<lparr>token = js ''a'', characterDelta = 0\<rparr>, \<lparr>token = js ''d'', characterDelta = 8\<rparr>]"
  by (simp add: parseTokens_def boundaries_def matchAllInvalid_def js_def isInvalidChar_def
      indexOf_def scanLoop.simps slice_def)

section \<open>Properties of the classifiers\<close>

lemma startsWith_Nil: "startsWith s [] = True"
  by (simp add: startsWith_def)

lemma startsWith_Cons: "startsWith s (c # p) = (\<exists>t. s = c # t \<and> startsWith t p)"
  by (cases s) (auto simp: startsWith_def)

lemmas classifier_defs =
  isEventDefinition_def isEventReference_def isStateDefinition_def isStateReference_def
  isResultDefinition_def isResultReference_def

lemma classifier_rows: "classifier row name = (row \<in> set (grammarRows name))"
  by (cases row rule: classifier.cases)
     (auto simp: classifier_defs grammarRows_def unprefixed_def Let_def js_def
        startsWith_Cons startsWith_Nil)

lemma js_vals:
  shows "js ''on:'' = [111, 110, 58]"
    and "js ''x-on:'' = [120, 45, 111, 110, 58]"
    and "js ''on'' = [111, 110]"
    and "js ''x-on'' = [120, 45, 111, 110]"
    and "js ''reset'' = [114, 101, 115, 101, 116]"
    and "js ''x-reset'' = [120, 45, 114, 101, 115, 101, 116]"
    and "js ''if:'' = [105, 102, 58]"
    and "js ''x-if:'' = [120, 45, 105, 102, 58]"
    and "js ''if'' = [105, 102]"
    and "js ''x-if'' = [120, 45, 105, 102]"
    and "js ''result'' = [114, 101, 115, 117, 108, 116]"
    and "js ''x-result'' = [120, 45, 114, 101, 115, 117, 108, 116]"
    and "js ''error'' = [101, 114, 114, 111, 114]"
    and "js ''x-error'' = [120, 45, 101, 114, 114, 111, 114]"
    and "js ''render'' = [114, 101, 110, 100, 101, 114]"
    and "js ''x-render'' = [120, 45, 114, 101, 110, 100, 101, 114]"
    and "js ''x-'' = [120, 45]"
  by (simp_all add: js_def)

lemma excl_0_1: "isEventDefinition name \<Longrightarrow> isEventReference name \<Longrightarrow> False"
  unfolding classifier_defs js_vals startsWith_Cons startsWith_Nil
  by (elim disjE exE conjE; simp)

lemma excl_0_2: "isEventDefinition name \<Longrightarrow> isStateDefinition name \<Longrightarrow> False"
  unfolding classifier_defs js_vals startsWith_Cons startsWith_Nil
  by (elim disjE exE conjE; simp)

lemma excl_0_3: "isEventDefinition name \<Longrightarrow> isStateReference name \<Longrightarrow> False"
  unfolding classifier_defs js_vals startsWith_Cons startsWith_Nil
  by (elim disjE exE conjE; simp)

lemma excl_0_4: "isEventDefinition name \<Longrightarrow> isResultDefinition name \<Longrightarrow> False"
  unfolding classifier_defs js_vals startsWith_Cons startsWith_Nil
  by (elim disjE exE conjE; simp)

lemma excl_0_5: "isEventDefinition name \<Longrightarrow> isResultReference name \<Longrightarrow> False"
  unfolding classifier_defs js_vals startsWith_Cons startsWith_Nil
  by (elim disjE exE conjE; simp)

lemma excl_1_2: "isEventReference name \<Longrightarrow> isStateDefinition name \<Longrightarrow> False"
  unfolding classifier_defs js_vals startsWith_Cons startsWith_Nil
  by (elim disjE exE conjE; simp)

lemma excl_1_3: "isEventReference name \<Longrightarrow> isStateReference name \<Longrightarrow> False"
  unfolding classifier_defs js_vals startsWith_Cons startsWith_Nil
  by (elim disjE exE conjE; simp)

lemma excl_1_4: "isEventReference name \<Longrightarrow> isResultDefinition name \<Longrightarrow> False"
  unfolding classifier_defs js_vals startsWith_Cons startsWith_Nil
  by (elim disjE exE conjE; simp)

lemma excl_1_5: "isEventReference name \<Longrightarrow> isResultReference name \<Longrightarrow> False"
  unfolding classifier_defs js_vals startsWith_Cons startsWith_Nil
  by (elim disjE exE conjE; simp)

lemma excl_2_3: "isStateDefinition name \<Longrightarrow> isStateReference name \<Longrightarrow> False"
  unfolding classifier_defs js_vals startsWith_Cons startsWith_Nil
  by (elim disjE exE conjE; simp)

lemma excl_2_4: "isStateDefinition name \<Longrightarrow> isResultDefinition name \<Longrightarrow> False"
  unfolding classifier_defs js_vals startsWith_Cons startsWith_Nil
  by (elim disjE exE conjE; simp)

lemma excl_2_5: "isStateDefinition name \<Longrightarrow> isResultReference name \<Longrightarrow> False"
  unfolding classifier_defs js_vals startsWith_Cons startsWith_Nil
  by (elim disjE exE conjE; simp)

lemma excl_3_4: "isStateReference name \<Longrightarrow> isResultDefinition name \<Longrightarrow> False"
  unfolding classifier_defs js_vals startsWith_Cons startsWith_Nil
  by (elim disjE exE conjE; simp)

lemma excl_3_5: "isStateReference name \<Longrightarrow> isResultReference name \<Longrightarrow> False"
  unfolding classifier_defs js_vals startsWith_Cons startsWith_Nil
  by (elim disjE exE conjE; simp)

lemma excl_4_5: "isResultDefinition name \<Longrightarrow> isResultReference name \<Longrightarrow> False"
  unfolding classifier_defs js_vals startsWith_Cons startsWith_Nil
  by (elim disjE exE conjE; simp)

lemma classifier_count:
  "length (filter (\<lambda>p. p name)
      [isEventDefinition, isEventReference, isStateDefinition, isStateReference,
       isResultDefinition, isResultReference]) \<le> 1"
proof -
  have e: "\<not> (isEventDefinition name \<and> isEventReference name)"
    "\<not> (isEventDefinition name \<and> isStateDefinition name)"
    "\<not> (isEventDefinition name \<and> isStateReference name)"
    "\<not> (isEventDefinition name \<and> isResultDefinition name)"
    "\<not> (isEventDefinition name \<and> isResultReference name)"
    "\<not> (isEventReference name \<and> isStateDefinition name)"
    "\<not> (isEventReference name \<and> isStateReference name)"
    "\<not> (isEventReference name \<and> isResultDefinition name)"
    "\<not> (isEventReference name \<and> isResultReference name)"
    "\<not> (isStateDefinition name \<and> isStateReference name)"
    "\<not> (isStateDefinition name \<and> isResultDefinition name)"
    "\<not> (isStateDefinition name \<and> isResultReference name)"
    "\<not> (isStateReference name \<and> isResultDefinition name)"
    "\<not> (isStateReference name \<and> isResultReference name)"
    "\<not> (isResultDefinition name \<and> isResultReference name)"
    using excl_0_1 [of name] excl_0_2 [of name] excl_0_3 [of name] excl_0_4 [of name] excl_0_5 [of name] excl_1_2 [of name] excl_1_3 [of name] excl_1_4 [of name] excl_1_5 [of name] excl_2_3 [of name] excl_2_4 [of name] excl_2_5 [of name] excl_3_4 [of name] excl_3_5 [of name] excl_4_5 [of name] by blast+
  show ?thesis
    using e
    by (cases "isEventDefinition name"; cases "isEventReference name";
        cases "isStateDefinition name"; cases "isStateReference name";
        cases "isResultDefinition name"; cases "isResultReference name") simp_all
qed

text \<open>
  Claim C7. Every attribute name satisfies at most one of the six classifiers; a classifier
  holds for a name exactly when the name matches its row of the grammar, so a name outside
  the grammar satisfies none of them.
\<close>

theorem classifiers_partition:
  "length (filter (\<lambda>p. p name)
      [isEventDefinition, isEventReference, isStateDefinition, isStateReference,
       isResultDefinition, isResultReference]) \<le> 1
   \<and> (\<forall>row. classifier row name = (row \<in> set (grammarRows name)))
   \<and> (grammarRows name = [] \<longrightarrow>
        \<not> isEventDefinition name \<and> \<not> isEventReference name \<and> \<not> isStateDefinition name
        \<and> \<not> isStateReference name \<and> \<not> isResultDefinition name \<and> \<not> isResultReference name)"
proof -
  note a = classifier_count [of name]
  have b: "\<forall>row. classifier row name = (row \<in> set (grammarRows name))"
    by (simp add: classifier_rows)
  have c: "\<not> classifier row name" if "grammarRows name = []" for row
    using that by (simp add: classifier_rows)
  have "grammarRows name = [] \<longrightarrow>
        \<not> isEventDefinition name \<and> \<not> isEventReference name \<and> \<not> isStateDefinition name
        \<and> \<not> isStateReference name \<and> \<not> isResultDefinition name \<and> \<not> isResultReference name"
    using c [of "(EventKind, DefinitionRole)"] c [of "(EventKind, ReferenceRole)"]
      c [of "(StateKind, DefinitionRole)"] c [of "(StateKind, ReferenceRole)"]
      c [of "(ResultKind, DefinitionRole)"] c [of "(ResultKind, ReferenceRole)"]
    by simp
  with a b show ?thesis by blast
qed

theorem classifiers_partition_witness:
  "grammarRows (js ''x-on:click'') = [(EventKind, DefinitionRole)]
   \<and> isEventDefinition (js ''x-on:click'') \<and> \<not> isEventReference (js ''x-on:click'')
   \<and> \<not> isStateDefinition (js ''x-on:click'') \<and> \<not> isStateReference (js ''x-on:click'')
   \<and> \<not> isResultDefinition (js ''x-on:click'') \<and> \<not> isResultReference (js ''x-on:click'')
   \<and> grammarRows (js ''class'') = []
   \<and> \<not> isEventDefinition (js ''class'') \<and> \<not> isEventReference (js ''class'')
   \<and> \<not> isStateDefinition (js ''class'') \<and> \<not> isStateReference (js ''class'')
   \<and> \<not> isResultDefinition (js ''class'') \<and> \<not> isResultReference (js ''class'')"
proof -
  have g1: "grammarRows (js ''x-on:click'') = [(EventKind, DefinitionRole)]"
    by (simp add: grammarRows_def unprefixed_def startsWith_def js_def)
  have g2: "grammarRows (js ''class'') = []"
    by (simp add: grammarRows_def unprefixed_def startsWith_def js_def)
  note w1 = classifiers_partition [of "js ''x-on:click''", THEN conjunct2, THEN conjunct1]
  note w2 = classifiers_partition [of "js ''class''", THEN conjunct2, THEN conjunct2]
  have r: "classifier (k, ro) (js ''x-on:click'') = ((k, ro) = (EventKind, DefinitionRole))" for k ro
    using w1 by (simp add: g1)
  have e: "isEventDefinition (js ''x-on:click'') \<and> \<not> isEventReference (js ''x-on:click'')
   \<and> \<not> isStateDefinition (js ''x-on:click'') \<and> \<not> isStateReference (js ''x-on:click'')
   \<and> \<not> isResultDefinition (js ''x-on:click'') \<and> \<not> isResultReference (js ''x-on:click'')"
    using r [of EventKind DefinitionRole] r [of EventKind ReferenceRole]
      r [of StateKind DefinitionRole] r [of StateKind ReferenceRole]
      r [of ResultKind DefinitionRole] r [of ResultKind ReferenceRole]
    by simp
  from w2 g2 have n: "\<not> isEventDefinition (js ''class'') \<and> \<not> isEventReference (js ''class'')
   \<and> \<not> isStateDefinition (js ''class'') \<and> \<not> isStateReference (js ''class'')
   \<and> \<not> isResultDefinition (js ''class'') \<and> \<not> isResultReference (js ''class'')"
    by (rule mp)
  from g1 g2 e n show ?thesis by (intro conjI) (erule conjE | assumption)+
qed

section \<open>The invariant of the symbol tables\<close>

lemma storeInv_update:
  "storeInv store \<Longrightarrow> k \<noteq> [] \<Longrightarrow> rs \<noteq> [] \<Longrightarrow> storeInv (AList.update k rs store)"
  by (induction store) (auto simp: storeInv_def)

lemma keys_update: "fst ` set (AList.update k rs store) = insert k (fst ` set store)"
  by (induction store) auto

lemma addRange_inv: "storeInv store \<Longrightarrow> storeInv (addRange store key r)"
  by (auto simp: addRange_def storeInv_update split: option.splits)

lemma addRange_keys:
  "fst ` set (addRange store key r) = (if key = [] then fst ` set store else insert key (fst ` set store))"
  by (auto simp: addRange_def keys_update split: option.splits)

lemma fold_addRange_inv:
  "storeInv store \<Longrightarrow> storeInv (fold (\<lambda>t st. addRange st (f t) (g t)) ts store)"
  by (induction ts arbitrary: store) (auto simp: addRange_inv)

lemma fold_addRange_keys:
  "fst ` set (fold (\<lambda>t st. addRange st (f t) (g t)) ts store)
     = fst ` set store \<union> {k \<in> f ` set ts. k \<noteq> []}"
  by (induction ts arbitrary: store) (auto simp: addRange_keys)

lemma addDefinitionRanges_inv:
  "storeInv store \<Longrightarrow> storeInv (addDefinitionRanges li store v r)"
  unfolding addDefinitionRanges_def by (rule fold_addRange_inv)

lemma scanList_nonempty: "p \<in> set (scanList lb rb i st cur rest) \<Longrightarrow> fst p \<noteq> []"
  by (induction rest arbitrary: i st cur) (auto split: if_splits)

lemma parseTokens_nonempty: "t \<in> set (parseTokens li v) \<Longrightarrow> token t \<noteq> []"
  by (auto simp: parseTokens_scanList mkToken_def dest: scanList_nonempty)

lemma parseTokens_Nil: "parseTokens li [] = []"
  by (simp add: parseTokens_scanList)

lemma classifyAttr_inv: "tablesInv acc \<Longrightarrow> tablesInv (classifyAttr li a acc)"
  by (simp add: classifyAttr_def tablesInv_def addRange_inv addDefinitionRanges_inv)

lemma parseAttr_inv: "tablesInv (fst p) \<Longrightarrow> tablesInv (fst (parseAttr tg attrs a p))"
proof -
  assume i: "tablesInv (fst p)"
  obtain acc li where p: "p = (acc, li)" by (cases p)
  have "tablesInv (classifyAttr li a acc)" using i p by (simp add: classifyAttr_inv)
  then show ?thesis
    by (simp add: p parseAttr_def Let_def tablesInv_def split: prod.splits)
qed

lemma parseNode_inv: "tablesInv (fst p) \<Longrightarrow> tablesInv (fst (parseNode node p))"
proof -
  have "tablesInv (fst p) \<Longrightarrow> tablesInv (fst (fold (parseAttr tg attrs) as p))" for tg attrs as
    by (induction as arbitrary: p) (auto simp: parseAttr_inv)
  then show "tablesInv (fst p) \<Longrightarrow> tablesInv (fst (parseNode node p))"
    by (simp add: parseNode_def)
qed

lemma fold_parseNode_inv: "tablesInv (fst p) \<Longrightarrow> tablesInv (fst (fold parseNode nodes p))"
  by (induction nodes arbitrary: p) (auto simp: parseNode_inv)

lemma parseLoop_inv: "tablesInv (fst p) \<Longrightarrow> tablesInv (fst (parseLoop stack p))"
  by (induction stack p rule: parseLoop.induct) (auto simp: fold_parseNode_inv)

lemma parseHTMLDocument_inv: "tablesInv (fst (parseHTMLDocument html d td li))"
proof -
  have e: "tablesInv (fst (emptyParsed, li))" by (simp add: emptyParsed_def tablesInv_def storeInv_def)
  obtain acc li' where r: "parseLoop [html (lsText td)] (emptyParsed, li) = (acc, li')"
    by (cases "parseLoop [html (lsText td)] (emptyParsed, li)")
  have "tablesInv (fst (parseLoop [html (lsText td)] (emptyParsed, li)))"
    by (rule parseLoop_inv [OF e])
  then have "tablesInv acc" by (simp only: r fst_conv)
  then show ?thesis
    by (simp only: parseHTMLDocument_def Let_def r) (simp add: tablesInv_def)
qed

lemma update_count_new:
  "map_of store k = None \<Longrightarrow>
   sum_list (map (\<lambda>e. length (snd e)) (AList.update k [r] store))
     = sum_list (map (\<lambda>e. length (snd e)) store) + 1"
  by (induction store) (auto split: if_splits)

lemma update_count_old:
  "map_of store k = Some rs \<Longrightarrow>
   sum_list (map (\<lambda>e. length (snd e)) (AList.update k (rs @ [r]) store))
     = sum_list (map (\<lambda>e. length (snd e)) store) + 1"
  by (induction store) (auto split: if_splits)

lemma addRange_count:
  "key \<noteq> [] \<Longrightarrow>
   sum_list (map (\<lambda>e. length (snd e)) (addRange store key r))
     = sum_list (map (\<lambda>e. length (snd e)) store) + 1"
  by (auto simp: addRange_def update_count_new update_count_old split: option.splits)

lemma fold_addRange_count:
  "\<forall>t \<in> set ts. f t \<noteq> [] \<Longrightarrow>
   sum_list (map (\<lambda>e. length (snd e)) (fold (\<lambda>t st. addRange st (f t) (g t)) ts store))
     = sum_list (map (\<lambda>e. length (snd e)) store) + length ts"
  by (induction ts arbitrary: store) (auto simp: addRange_count)

text \<open>
  Claim C9. \<open>addRange\<close> and \<open>addDefinitionRanges\<close> keep every key of a table non-empty
  and every list of ranges non-empty; \<open>addRange\<close> ignores the empty key, every token of
  the tokenizer is non-empty, and \<open>addDefinitionRanges\<close> adds one range for each token
  and nothing for the empty value; the keys of the new table are the old ones and the key
  (the tokens) added; so the six tables that \<open>parseHTMLDocument\<close> returns satisfy the
  invariant.
\<close>

theorem tables_invariant:
  "(storeInv store \<longrightarrow>
      storeInv (addRange store key r) \<and> storeInv (addDefinitionRanges li store v r))
   \<and> addRange store [] r = store
   \<and> addDefinitionRanges li store [] r = store
   \<and> (\<forall>t \<in> set (parseTokens li v). token t \<noteq> [])
   \<and> fst ` set (addRange store key r) \<subseteq> insert key (fst ` set store)
   \<and> fst ` set (addDefinitionRanges li store v r)
       = fst ` set store \<union> token ` set (parseTokens li v)
   \<and> sum_list (map (\<lambda>e. length (snd e)) (addDefinitionRanges li store v r))
       = sum_list (map (\<lambda>e. length (snd e)) store) + length (parseTokens li v)
   \<and> tablesInv (fst (parseHTMLDocument html d td li))"
proof -
  have ne: "\<forall>t \<in> set (parseTokens li v). token t \<noteq> []"
    by (simp add: parseTokens_nonempty)
  have k: "fst ` set (addDefinitionRanges li store v r)
       = fst ` set store \<union> token ` set (parseTokens li v)"
    unfolding addDefinitionRanges_def fold_addRange_keys using ne by auto
  have c: "sum_list (map (\<lambda>e. length (snd e)) (addDefinitionRanges li store v r))
       = sum_list (map (\<lambda>e. length (snd e)) store) + length (parseTokens li v)"
    unfolding addDefinitionRanges_def by (rule fold_addRange_count [OF ne])
  have a: "fst ` set (addRange store key r) \<subseteq> insert key (fst ` set store)"
    by (auto simp: addRange_keys split: if_splits)
  have e: "addDefinitionRanges li store [] r = store"
    by (simp add: addDefinitionRanges_def parseTokens_Nil)
  have z: "addRange store [] r = store" by (simp add: addRange_def)
  from ne k c a e z addRange_inv [of store key r] addDefinitionRanges_inv [of store li v r]
    parseHTMLDocument_inv [of html d td li]
  show ?thesis by blast
qed

theorem tables_invariant_witness:
  "storeInv (addDefinitionRanges 0 [] (js ''save  load'')
      \<lparr>rangeStart = \<lparr>line = 0, character = 10\<rparr>, rangeEnd = \<lparr>line = 0, character = 20\<rparr>\<rparr>)
   \<and> addDefinitionRanges 0 [] (js ''save  load'')
      \<lparr>rangeStart = \<lparr>line = 0, character = 10\<rparr>, rangeEnd = \<lparr>line = 0, character = 20\<rparr>\<rparr>
     = [(js ''save'',
          [\<lparr>rangeStart = \<lparr>line = 0, character = 10\<rparr>, rangeEnd = \<lparr>line = 0, character = 14\<rparr>\<rparr>]),
        (js ''load'',
          [\<lparr>rangeStart = \<lparr>line = 0, character = 16\<rparr>, rangeEnd = \<lparr>line = 0, character = 20\<rparr>\<rparr>])]
   \<and> addRange [] [] \<lparr>rangeStart = \<lparr>line = 0, character = 10\<rparr>, rangeEnd = \<lparr>line = 0, character = 20\<rparr>\<rparr> = []"
proof -
  let ?r = "\<lparr>rangeStart = \<lparr>line = 0, character = 10\<rparr>, rangeEnd = \<lparr>line = 0, character = 20\<rparr>\<rparr>"
  have i: "storeInv []" by (simp add: storeInv_def)
  have t: "parseTokens 0 (js ''save  load'') =
     [\<lparr>token = js ''save'', characterDelta = 0\<rparr>, \<lparr>token = js ''load'', characterDelta = 6\<rparr>]"
    by (simp add: parseTokens_def boundaries_def matchAllInvalid_def js_def isInvalidChar_def
        scanLoop.simps slice_def)
  have v: "addDefinitionRanges 0 [] (js ''save  load'') ?r
     = [(js ''save'',
          [\<lparr>rangeStart = \<lparr>line = 0, character = 10\<rparr>, rangeEnd = \<lparr>line = 0, character = 14\<rparr>\<rparr>]),
        (js ''load'',
          [\<lparr>rangeStart = \<lparr>line = 0, character = 16\<rparr>, rangeEnd = \<lparr>line = 0, character = 20\<rparr>\<rparr>])]"
    unfolding addDefinitionRanges_def t
    by (simp add: addRange_def newRange_def translate_def isBefore_def js_def)
  note w = tables_invariant [of "[]" "[]" ?r 0 "js ''save  load''"]
  from w i have "storeInv (addDefinitionRanges 0 [] (js ''save  load'') ?r)" by blast
  moreover from w have "addRange [] [] ?r = []" by blast
  ultimately show ?thesis using v by (simp only: simp_thms)
qed

section \<open>The resolver\<close>

lemma map_of_keys: "(map_of store k \<noteq> None) = (k \<in> fst ` set store)"
  by (simp add: map_of_eq_None_iff)

lemma findAction_iff:
  "findAction right action refs = (\<exists>ref \<in> set refs. action \<in> fst ` set (right ref))"
  by (induction refs) (auto simp: map_of_keys simp del: not_None_eq)

lemma pushRanges_eq:
  "pushRanges msg sev tgs rs ds = ds @ map (passDiagnostic msg sev tgs) rs"
  by (induction rs arbitrary: ds)
     (auto simp: passDiagnostic_def newDiagnostic_def split: option.splits)

lemma partialLoop_eq:
  "partialLoop dcs right kind tpl sev tgs entries ds
     = ds @ passSpec dcs entries right (tpl kind) sev tgs"
  by (induction entries arbitrary: ds)
     (simp_all add: passSpec_def inSomeDocument_def findAction_iff pushRanges_eq)

lemma addReferenceDiagnostics_eq:
  "addReferenceDiagnostics us ud dcs ds cur definitions references kind
     = ds @ unusedSpec us dcs cur definitions references kind
          @ undefinedSpec ud dcs cur definitions references kind"
  by (simp add: addReferenceDiagnostics_def addPartialReferenceDiagnostics_def partialLoop_eq
      unusedSpec_def undefinedSpec_def Let_def split: option.splits)

lemma documentDiagnostics_eq:
  "documentDiagnostics s cur =
     unusedSpec (actionUnusedSeverity s) (docs s) cur event_definitions event_references (js ''event'')
     @ undefinedSpec (actionUndefinedSeverity s) (docs s) cur event_definitions event_references
         (js ''event'')
     @ unusedSpec (actionUnusedSeverity s) (docs s) cur state_definitions state_references (js ''state'')
     @ undefinedSpec (actionUndefinedSeverity s) (docs s) cur state_definitions state_references
         (js ''state'')
     @ unusedSpec (actionUnusedSeverity s) (docs s) cur result_definitions result_references
         (js ''result'')
     @ undefinedSpec (actionUndefinedSeverity s) (docs s) cur result_definitions result_references
         (js ''result'')
     @ diagnostics cur"
  by (simp add: documentDiagnostics_def Let_def addReferenceDiagnostics_eq)

lemma UNUSED_TPL_inject: "(UNUSED_TPL kind a = UNUSED_TPL kind b) = (a = b)"
  by (simp add: UNUSED_TPL_def)

lemma UNDECLARED_TPL_inject: "(UNDECLARED_TPL kind a = UNDECLARED_TPL kind b) = (a = b)"
  by (simp add: UNDECLARED_TPL_def)

lemma templates_differ: "UNUSED_TPL kind a \<noteq> UNDECLARED_TPL kind' b"
  by (simp add: UNUSED_TPL_def UNDECLARED_TPL_def js_def)

lemma passSpec_filter:
  assumes "distinct (map fst left)" and "\<And>a b. (msg a = msg b) = (a = b)"
  shows "filter (\<lambda>d. message d = msg n) (passSpec dcs left right msg sev tgs)
     = (if inSomeDocument dcs right n then []
        else case map_of left n of
               None \<Rightarrow> []
             | Some ranges \<Rightarrow> map (passDiagnostic (msg n) sev tgs) ranges)"
  using assms(1)
proof (induction left)
  case Nil
  show ?case by (simp add: passSpec_def)
next
  case (Cons e es)
  have f: "filter (\<lambda>d. message d = msg n) (map (passDiagnostic (msg k) sev tgs) rs)
           = (if k = n then map (passDiagnostic (msg n) sev tgs) rs else [])" for k rs
    by (induction rs) (auto simp: passDiagnostic_def assms(2))
  have ps: "passSpec dcs (e # es) right msg sev tgs =
      (if inSomeDocument dcs right (fst e) then []
       else map (passDiagnostic (msg (fst e)) sev tgs) (snd e)) @ passSpec dcs es right msg sev tgs"
    by (simp add: passSpec_def)
  from Cons.prems have d: "distinct (map fst es)" and nk: "fst e \<notin> fst ` set es" by auto
  note ih = Cons.IH [OF d]
  show ?case
  proof (cases "fst e = n")
    case True
    with nk have "map_of es n = None" by (simp add: map_of_eq_None_iff)
    with True ih show ?thesis by (simp add: ps f)
  next
    case False
    with ih show ?thesis by (simp add: ps f)
  qed
qed

lemma passSpec_messages:
  assumes "d \<in> set (passSpec dcs left right msg sev tgs)"
  shows "\<exists>a \<in> fst ` set left. \<not> inSomeDocument dcs right a \<and> message d = msg a"
proof -
  from assms obtain e where e: "e \<in> set left" "\<not> inSomeDocument dcs right (fst e)"
    "d \<in> set (map (passDiagnostic (msg (fst e)) sev tgs) (snd e))"
    by (auto simp: passSpec_def split: if_splits)
  then have "message d = msg (fst e)" by (auto simp: passDiagnostic_def)
  with e(1,2) show ?thesis by blast
qed

lemma distinct_addRange: "distinct (map fst store) \<Longrightarrow> distinct (map fst (addRange store key r))"
  by (simp add: addRange_def distinct_update split: option.splits)

lemma distinct_addDefinitionRanges:
  "distinct (map fst store) \<Longrightarrow> distinct (map fst (addDefinitionRanges li store v r))"
proof -
  have "distinct (map fst store) \<Longrightarrow>
        distinct (map fst (fold (\<lambda>t st. addRange st (f t) (g t)) ts store))" for f g ts
    by (induction ts arbitrary: store) (auto simp: distinct_addRange)
  then show "distinct (map fst store) \<Longrightarrow> distinct (map fst (addDefinitionRanges li store v r))"
    by (simp add: addDefinitionRanges_def)
qed

lemma classifyAttr_distinct: "tablesDistinct acc \<Longrightarrow> tablesDistinct (classifyAttr li a acc)"
  by (simp add: classifyAttr_def tablesDistinct_def distinct_addRange distinct_addDefinitionRanges)

lemma parseAttr_distinct:
  "tablesDistinct (fst p) \<Longrightarrow> tablesDistinct (fst (parseAttr tg attrs a p))"
proof -
  assume i: "tablesDistinct (fst p)"
  obtain acc li where p: "p = (acc, li)" by (cases p)
  have "tablesDistinct (classifyAttr li a acc)" using i p by (simp add: classifyAttr_distinct)
  then show ?thesis
    by (simp add: p parseAttr_def Let_def tablesDistinct_def split: prod.splits)
qed

lemma parseNode_distinct: "tablesDistinct (fst p) \<Longrightarrow> tablesDistinct (fst (parseNode node p))"
proof -
  have "tablesDistinct (fst p) \<Longrightarrow> tablesDistinct (fst (fold (parseAttr tg attrs) as p))"
    for tg attrs as
    by (induction as arbitrary: p) (auto simp: parseAttr_distinct)
  then show "tablesDistinct (fst p) \<Longrightarrow> tablesDistinct (fst (parseNode node p))"
    by (simp add: parseNode_def)
qed

lemma fold_parseNode_distinct:
  "tablesDistinct (fst p) \<Longrightarrow> tablesDistinct (fst (fold parseNode nodes p))"
  by (induction nodes arbitrary: p) (auto simp: parseNode_distinct)

lemma parseLoop_distinct: "tablesDistinct (fst p) \<Longrightarrow> tablesDistinct (fst (parseLoop stack p))"
  by (induction stack p rule: parseLoop.induct) (auto simp: fold_parseNode_distinct)

lemma parseHTMLDocument_distinct: "tablesDistinct (fst (parseHTMLDocument html d td li))"
proof -
  have e: "tablesDistinct (fst (emptyParsed, li))"
    by (simp add: emptyParsed_def tablesDistinct_def)
  obtain acc li' where r: "parseLoop [html (lsText td)] (emptyParsed, li) = (acc, li')"
    by (cases "parseLoop [html (lsText td)] (emptyParsed, li)")
  have "tablesDistinct (fst (parseLoop [html (lsText td)] (emptyParsed, li)))"
    by (rule parseLoop_distinct [OF e])
  then have "tablesDistinct acc" by (simp only: r fst_conv)
  then show ?thesis
    by (simp only: parseHTMLDocument_def Let_def r) (simp add: tablesDistinct_def)
qed

text \<open>
  Claim C2. \<open>addReferenceDiagnostics\<close> appends the diagnostics of the unused pass and then
  those of the undefined pass. With the unused severity disabled the unused pass adds
  nothing. Otherwise every diagnostic of the unused pass has the configured severity, the
  source KEML, and the tag unnecessary exactly when the severity is Warning; and for every
  name the unused diagnostics about it are none when some tracked document has the name in
  its reference table, and else one for each range stored for the name in the definition
  table of the document, in order.
\<close>

theorem unused_pass:
  "addReferenceDiagnostics us ud dcs ds cur definitions references kind
     = ds @ unusedSpec us dcs cur definitions references kind
          @ undefinedSpec ud dcs cur definitions references kind
   \<and> unusedSpec None dcs cur definitions references kind = []
   \<and> (\<forall>d \<in> set (unusedSpec (Some sev) dcs cur definitions references kind).
         severity d = sev \<and> source d = Some (js ''KEML'')
         \<and> tags d = (if sev = Warning then Some [Unnecessary] else None))
   \<and> (distinct (map fst (definitions cur)) \<longrightarrow>
        filter (\<lambda>d. message d = UNUSED_TPL kind n)
          (unusedSpec (Some sev) dcs cur definitions references kind)
        = (if inSomeDocument dcs references n then []
           else case map_of (definitions cur) n of
                  None \<Rightarrow> []
                | Some ranges \<Rightarrow>
                    map (passDiagnostic (UNUSED_TPL kind n) sev
                           (if sev = Warning then Some [Unnecessary] else None)) ranges))"
proof -
  have a: "\<forall>d \<in> set (unusedSpec (Some sev) dcs cur definitions references kind).
         severity d = sev \<and> source d = Some (js ''KEML'')
         \<and> tags d = (if sev = Warning then Some [Unnecessary] else None)"
    by (auto simp: unusedSpec_def passSpec_def passDiagnostic_def split: if_splits)
  have b: "distinct (map fst (definitions cur)) \<longrightarrow>
        filter (\<lambda>d. message d = UNUSED_TPL kind n)
          (unusedSpec (Some sev) dcs cur definitions references kind)
        = (if inSomeDocument dcs references n then []
           else case map_of (definitions cur) n of
                  None \<Rightarrow> []
                | Some ranges \<Rightarrow>
                    map (passDiagnostic (UNUSED_TPL kind n) sev
                           (if sev = Warning then Some [Unnecessary] else None)) ranges)"
    unfolding unusedSpec_def option.case
    by (rule impI, rule passSpec_filter) (simp_all add: UNUSED_TPL_inject)
  have c: "unusedSpec None dcs cur definitions references kind = []"
    by (simp add: unusedSpec_def)
  from a b c addReferenceDiagnostics_eq [of us ud dcs ds cur definitions references kind]
  show ?thesis by blast
qed

theorem unused_pass_witness:
  "addReferenceDiagnostics (Some Warning) (Some Error)
     [(js ''a.html'', exampleParsed (js ''a.html'') [] [] [] []
         [(js ''done'', [span 16 20, span 40 44])] []),
      (js ''b.html'', exampleParsed (js ''b.html'') [] [] [] []
         [(js ''saved'', [span 3 8])] [(js ''saved'', [span 30 35])])]
     []
     (exampleParsed (js ''a.html'') [] [] [] [] [(js ''done'', [span 16 20, span 40 44])] [])
     result_definitions result_references (js ''result'')
   = [\<lparr>diagRange = span 16 20, message = UNUSED_TPL (js ''result'') (js ''done''),
       severity = Warning, source = Some (js ''KEML''), tags = Some [Unnecessary]\<rparr>,
      \<lparr>diagRange = span 40 44, message = UNUSED_TPL (js ''result'') (js ''done''),
       severity = Warning, source = Some (js ''KEML''), tags = Some [Unnecessary]\<rparr>]
   \<and> addReferenceDiagnostics (Some Error) None
     [(js ''a.html'', exampleParsed (js ''a.html'') [] [] [] []
         [(js ''done'', [span 16 20, span 40 44])] []),
      (js ''b.html'', exampleParsed (js ''b.html'') [] [] [] []
         [(js ''saved'', [span 3 8])] [(js ''saved'', [span 30 35])])]
     []
     (exampleParsed (js ''b.html'') [] [] [] []
         [(js ''saved'', [span 3 8])] [(js ''saved'', [span 30 35])])
     result_definitions result_references (js ''result'')
   = []"
proof -
  let ?a = "exampleParsed (js ''a.html'') [] [] [] [] [(js ''done'', [span 16 20, span 40 44])] []"
  let ?b = "exampleParsed (js ''b.html'') [] [] [] []
         [(js ''saved'', [span 3 8])] [(js ''saved'', [span 30 35])]"
  let ?dcs = "[(js ''a.html'', ?a), (js ''b.html'', ?b)]"
  have n: "js ''done'' \<noteq> js ''saved''" by (simp add: js_def)
  have r1: "\<not> inSomeDocument ?dcs result_references (js ''done'')"
    using n by (simp add: inSomeDocument_def exampleParsed_def)
  have r2: "inSomeDocument ?dcs result_references (js ''saved'')"
    by (simp add: inSomeDocument_def exampleParsed_def)
  have r3: "inSomeDocument ?dcs result_definitions (js ''saved'')"
    by (simp add: inSomeDocument_def exampleParsed_def)
  have da: "result_definitions ?a = [(js ''done'', [span 16 20, span 40 44])]"
    and ra: "result_references ?a = []"
    and db: "result_definitions ?b = [(js ''saved'', [span 3 8])]"
    and rb: "result_references ?b = [(js ''saved'', [span 30 35])]"
    by (simp_all add: exampleParsed_def)
  have u1: "unusedSpec (Some Warning) ?dcs ?a result_definitions result_references (js ''result'')
      = [\<lparr>diagRange = span 16 20, message = UNUSED_TPL (js ''result'') (js ''done''),
           severity = Warning, source = Some (js ''KEML''), tags = Some [Unnecessary]\<rparr>,
         \<lparr>diagRange = span 40 44, message = UNUSED_TPL (js ''result'') (js ''done''),
           severity = Warning, source = Some (js ''KEML''), tags = Some [Unnecessary]\<rparr>]"
    unfolding unusedSpec_def passSpec_def da using r1 by (simp add: passDiagnostic_def)
  have u2: "undefinedSpec (Some Error) ?dcs ?a result_definitions result_references (js ''result'') = []"
    unfolding undefinedSpec_def passSpec_def ra by simp
  have u3: "unusedSpec (Some Error) ?dcs ?b result_definitions result_references (js ''result'') = []"
    unfolding unusedSpec_def passSpec_def db using r2 by simp
  have u4: "undefinedSpec None ?dcs ?b result_definitions result_references (js ''result'') = []"
    by (simp add: undefinedSpec_def)
  note w1 = unused_pass [of "Some Warning" "Some Error" ?dcs "[]" ?a result_definitions
      result_references "js ''result''", THEN conjunct1]
  note w2 = unused_pass [of "Some Error" None ?dcs "[]" ?b result_definitions
      result_references "js ''result''", THEN conjunct1]
  show ?thesis
    unfolding w1 w2 u1 u2 u3 u4 by simp
qed

lemma unusedSpec_messages:
  assumes "UNUSED_TPL kind n \<in> message ` set (unusedSpec us dcs cur definitions references kind)"
  shows "n \<in> fst ` set (definitions cur) \<and> \<not> inSomeDocument dcs references n"
proof -
  from assms obtain sev d where
    d: "d \<in> set (passSpec dcs (definitions cur) references (UNUSED_TPL kind) sev
                    (if sev = Warning then Some [Unnecessary] else None))"
       "message d = UNUSED_TPL kind n"
    by (cases us) (auto simp: unusedSpec_def)
  from passSpec_messages [OF d(1)] d(2) show ?thesis by (auto simp: UNUSED_TPL_inject)
qed

lemma undefinedSpec_messages:
  assumes "UNDECLARED_TPL kind n \<in> message ` set (undefinedSpec ud dcs cur definitions references kind)"
  shows "n \<in> fst ` set (references cur) \<and> \<not> inSomeDocument dcs definitions n"
proof -
  from assms obtain sev d where
    d: "d \<in> set (passSpec dcs (references cur) definitions (UNDECLARED_TPL kind) sev None)"
       "message d = UNDECLARED_TPL kind n"
    by (cases ud) (auto simp: undefinedSpec_def)
  from passSpec_messages [OF d(1)] d(2) show ?thesis by (auto simp: UNDECLARED_TPL_inject)
qed

lemma unusedSpec_not_undeclared:
  "UNDECLARED_TPL kind n \<notin> message ` set (unusedSpec us dcs cur definitions references kind)"
proof
  assume "UNDECLARED_TPL kind n \<in> message ` set (unusedSpec us dcs cur definitions references kind)"
  then obtain sev d where
    d: "d \<in> set (passSpec dcs (definitions cur) references (UNUSED_TPL kind) sev
                    (if sev = Warning then Some [Unnecessary] else None))"
       "message d = UNDECLARED_TPL kind n"
    by (cases us) (auto simp: unusedSpec_def)
  from passSpec_messages [OF d(1)] d(2)
  show False by (auto simp: templates_differ templates_differ [symmetric])
qed

lemma undefinedSpec_not_unused:
  "UNUSED_TPL kind n \<notin> message ` set (undefinedSpec ud dcs cur definitions references kind)"
proof
  assume "UNUSED_TPL kind n \<in> message ` set (undefinedSpec ud dcs cur definitions references kind)"
  then obtain sev d where
    d: "d \<in> set (passSpec dcs (references cur) definitions (UNDECLARED_TPL kind) sev None)"
       "message d = UNUSED_TPL kind n"
    by (cases ud) (auto simp: undefinedSpec_def)
  from passSpec_messages [OF d(1)] d(2)
  show False by (auto simp: templates_differ templates_differ [symmetric])
qed

text \<open>
  Claim C4. Among the diagnostics that one call of \<open>addReferenceDiagnostics\<close> adds for a
  document and a kind, one with the unused message of a name stands only when the name is a
  key of the definition table of the document and of no reference table of a tracked
  document; one with the undefined message only when the name is a key of the reference
  table of the document and of no definition table of a tracked document; and for a
  document of the workspace table no name has both.
\<close>

theorem unused_undefined_disjoint:
  "(UNUSED_TPL kind n \<in> message ` set (drop (length ds)
        (addReferenceDiagnostics us ud dcs ds cur definitions references kind))
      \<longrightarrow> n \<in> fst ` set (definitions cur) \<and> \<not> inSomeDocument dcs references n)
   \<and> (UNDECLARED_TPL kind n \<in> message ` set (drop (length ds)
        (addReferenceDiagnostics us ud dcs ds cur definitions references kind))
      \<longrightarrow> n \<in> fst ` set (references cur) \<and> \<not> inSomeDocument dcs definitions n)
   \<and> (cur \<in> snd ` set dcs \<longrightarrow>
        \<not> (UNUSED_TPL kind n \<in> message ` set (drop (length ds)
              (addReferenceDiagnostics us ud dcs ds cur definitions references kind))
           \<and> UNDECLARED_TPL kind n \<in> message ` set (drop (length ds)
              (addReferenceDiagnostics us ud dcs ds cur definitions references kind))))"
proof -
  let ?U = "unusedSpec us dcs cur definitions references kind"
  let ?V = "undefinedSpec ud dcs cur definitions references kind"
  let ?out = "drop (length ds) (addReferenceDiagnostics us ud dcs ds cur definitions references kind)"
  have out: "?out = ?U @ ?V" by (simp add: addReferenceDiagnostics_eq)
  have a: "n \<in> fst ` set (definitions cur) \<and> \<not> inSomeDocument dcs references n"
    if "UNUSED_TPL kind n \<in> message ` set ?out"
  proof -
    from that have "UNUSED_TPL kind n \<in> message ` set ?U"
      using undefinedSpec_not_unused [of kind n ud dcs cur definitions references]
      unfolding out by auto
    then show ?thesis by (rule unusedSpec_messages)
  qed
  have b: "n \<in> fst ` set (references cur) \<and> \<not> inSomeDocument dcs definitions n"
    if "UNDECLARED_TPL kind n \<in> message ` set ?out"
  proof -
    from that have "UNDECLARED_TPL kind n \<in> message ` set ?V"
      using unusedSpec_not_undeclared [of kind n us dcs cur definitions references]
      unfolding out by auto
    then show ?thesis by (rule undefinedSpec_messages)
  qed
  have c: "\<not> (UNUSED_TPL kind n \<in> message ` set ?out \<and> UNDECLARED_TPL kind n \<in> message ` set ?out)"
    if "cur \<in> snd ` set dcs"
  proof
    assume h: "UNUSED_TPL kind n \<in> message ` set ?out \<and> UNDECLARED_TPL kind n \<in> message ` set ?out"
    from h a have "\<not> inSomeDocument dcs references n" by blast
    moreover from h b have "n \<in> fst ` set (references cur)" by blast
    with that have "inSomeDocument dcs references n"
      unfolding inSomeDocument_def by (simp only: set_map) blast
    ultimately show False by blast
  qed
  from a b c show ?thesis by blast
qed

theorem unused_undefined_disjoint_witness:
  "addReferenceDiagnostics (Some Error) (Some Error)
     [(js ''c.html'', (exampleParsed (js ''c.html'')
        [(js ''save'', [span 1 5]), (js ''load'', [span 10 14])]
        [(js ''load'', [span 20 24]), (js ''open'', [span 30 34])] [] [] [] []))] []
     (exampleParsed (js ''c.html'')
        [(js ''save'', [span 1 5]), (js ''load'', [span 10 14])]
        [(js ''load'', [span 20 24]), (js ''open'', [span 30 34])] [] [] [] [])
     event_definitions event_references (js ''event'')
   = [\<lparr>diagRange = span 1 5, message = UNUSED_TPL (js ''event'') (js ''save''),
       severity = Error, source = Some (js ''KEML''), tags = None\<rparr>,
      \<lparr>diagRange = span 30 34, message = UNDECLARED_TPL (js ''event'') (js ''open''),
       severity = Error, source = Some (js ''KEML''), tags = None\<rparr>]
   \<and> \<not> (UNUSED_TPL (js ''event'') (js ''save'') \<in> message ` set (drop (length ([] :: Diagnostic list))
          (addReferenceDiagnostics (Some Error) (Some Error)
     [(js ''c.html'', (exampleParsed (js ''c.html'')
        [(js ''save'', [span 1 5]), (js ''load'', [span 10 14])]
        [(js ''load'', [span 20 24]), (js ''open'', [span 30 34])] [] [] [] []))] []
     (exampleParsed (js ''c.html'')
        [(js ''save'', [span 1 5]), (js ''load'', [span 10 14])]
        [(js ''load'', [span 20 24]), (js ''open'', [span 30 34])] [] [] [] [])
     event_definitions event_references (js ''event'')))
        \<and> UNDECLARED_TPL (js ''event'') (js ''save'') \<in> message ` set (drop (length ([] :: Diagnostic list))
          (addReferenceDiagnostics (Some Error) (Some Error)
     [(js ''c.html'', (exampleParsed (js ''c.html'')
        [(js ''save'', [span 1 5]), (js ''load'', [span 10 14])]
        [(js ''load'', [span 20 24]), (js ''open'', [span 30 34])] [] [] [] []))] []
     (exampleParsed (js ''c.html'')
        [(js ''save'', [span 1 5]), (js ''load'', [span 10 14])]
        [(js ''load'', [span 20 24]), (js ''open'', [span 30 34])] [] [] [] [])
     event_definitions event_references (js ''event''))))"
proof -
  let ?c = "(exampleParsed (js ''c.html'')
        [(js ''save'', [span 1 5]), (js ''load'', [span 10 14])]
        [(js ''load'', [span 20 24]), (js ''open'', [span 30 34])] [] [] [] [])"
  let ?dcs = "[(js ''c.html'', ?c)]"
  have m: "?c \<in> snd ` set ?dcs" by simp
  have k: "js ''save'' \<noteq> js ''load''" "js ''save'' \<noteq> js ''open''" "js ''load'' \<noteq> js ''open''"
    by (simp_all add: js_def)
  have v: "addReferenceDiagnostics (Some Error) (Some Error) ?dcs [] ?c
             event_definitions event_references (js ''event'')
   = [\<lparr>diagRange = span 1 5, message = UNUSED_TPL (js ''event'') (js ''save''),
       severity = Error, source = Some (js ''KEML''), tags = None\<rparr>,
      \<lparr>diagRange = span 30 34, message = UNDECLARED_TPL (js ''event'') (js ''open''),
       severity = Error, source = Some (js ''KEML''), tags = None\<rparr>]"
    using k k [symmetric]
    by (simp add: addReferenceDiagnostics_def addPartialReferenceDiagnostics_def
        exampleParsed_def newDiagnostic_def)
  from unused_undefined_disjoint [of "js ''event''" "js ''save''" "[]" "Some Error" "Some Error"
      ?dcs ?c event_definitions event_references, THEN conjunct2, THEN conjunct2] m
  have d: "\<not> (UNUSED_TPL (js ''event'') (js ''save'') \<in> message ` set (drop (length ([] :: Diagnostic list))
          (addReferenceDiagnostics (Some Error) (Some Error) ?dcs [] ?c
             event_definitions event_references (js ''event'')))
        \<and> UNDECLARED_TPL (js ''event'') (js ''save'') \<in> message ` set (drop (length ([] :: Diagnostic list))
          (addReferenceDiagnostics (Some Error) (Some Error) ?dcs [] ?c
             event_definitions event_references (js ''event''))))"
    by (rule mp)
  from v d show ?thesis by (rule conjI)
qed

section \<open>The handlers of the workspace table\<close>





text \<open>
  Claim C10. \<open>setDocs\<close> returns the state as it is (the table, the published diagnostics
  and the \<open>lastIndex\<close> of the pattern, so nothing was parsed) when it is called for a
  created document whose URI is in the table (\<open>overwrite\<close> false) and when it is called
  for a changed document whose URI is not in the table (\<open>overwrite\<close> true).
\<close>

theorem setDocs_guard:
  "(map_of (docs s) (uri d) \<noteq> None \<longrightarrow>
      onDidCreateDoc matchesGlob html s d = s \<and> setDocs matchesGlob html s d False = s)
   \<and> (map_of (docs s) (uri d) = None \<longrightarrow>
      onDidChangeDoc matchesGlob html s d = s \<and> setDocs matchesGlob html s d True = s)"
  by (simp add: onDidCreateDoc_def onDidChangeDoc_def setDocs_def Let_def)

theorem setDocs_guard_witness:
  "onDidCreateDoc (\<lambda>p pattern. False) (\<lambda>text. [])
      (exampleState
         [(js ''a.html'', exampleParsed (js ''a.html'') [(js ''save'', [span 1 5])] [] [] [] [] [])])
      (exampleTextDocument (js ''a.html'') (js ''changed''))
     = exampleState
         [(js ''a.html'', exampleParsed (js ''a.html'') [(js ''save'', [span 1 5])] [] [] [] [] [])]
   \<and> onDidChangeDoc (\<lambda>p pattern. False) (\<lambda>text. [])
      (exampleState
         [(js ''a.html'', exampleParsed (js ''a.html'') [(js ''save'', [span 1 5])] [] [] [] [] [])])
      (exampleTextDocument (js ''b.html'') (js ''changed''))
     = exampleState
         [(js ''a.html'', exampleParsed (js ''a.html'') [(js ''save'', [span 1 5])] [] [] [] [] [])]
   \<and> docs (onDidCreateDoc (\<lambda>p pattern. False) (\<lambda>text. [])
      (exampleState
         [(js ''a.html'', exampleParsed (js ''a.html'') [(js ''save'', [span 1 5])] [] [] [] [] [])])
      (exampleTextDocument (js ''b.html'') []))
     = [(js ''a.html'', exampleParsed (js ''a.html'') [(js ''save'', [span 1 5])] [] [] [] [] []),
        (js ''b.html'', exampleParsed (js ''b.html'') [] [] [] [] [] [])]"
proof -
  let ?a = "exampleParsed (js ''a.html'') [(js ''save'', [span 1 5])] [] [] [] [] []"
  let ?s = "exampleState [(js ''a.html'', ?a)]"
  let ?g = "\<lambda>(p::jsstring) (pattern::jsstring). False"
  let ?h = "\<lambda>text::jsstring. ([]::Node list)"
  have k: "js ''a.html'' \<noteq> js ''b.html''" by (simp add: js_def)
  have p: "map_of (docs ?s) (uri (exampleTextDocument (js ''a.html'') (js ''changed''))) \<noteq> None"
    by (simp add: exampleState_def exampleTextDocument_def)
  have a: "map_of (docs ?s) (uri (exampleTextDocument (js ''b.html'') (js ''changed''))) = None"
    using k by (simp add: exampleState_def exampleTextDocument_def)
  from setDocs_guard [of ?s "exampleTextDocument (js ''a.html'') (js ''changed'')" ?g ?h] p
  have one: "onDidCreateDoc ?g ?h ?s (exampleTextDocument (js ''a.html'') (js ''changed'')) = ?s"
    by blast
  from setDocs_guard [of ?s "exampleTextDocument (js ''b.html'') (js ''changed'')" ?g ?h] a
  have two: "onDidChangeDoc ?g ?h ?s (exampleTextDocument (js ''b.html'') (js ''changed'')) = ?s"
    by blast
  have three: "docs (onDidCreateDoc ?g ?h ?s (exampleTextDocument (js ''b.html'') []))
     = [(js ''a.html'', ?a), (js ''b.html'', exampleParsed (js ''b.html'') [] [] [] [] [] [])]"
    using k k [symmetric]
    by (simp add: onDidCreateDoc_def setDocs_def Let_def exampleState_def exampleTextDocument_def
        parseHTMLDocument_def emptyParsed_def updateDiagnosticCollection_def exampleParsed_def)
  from one two three show ?thesis by (intro conjI)
qed

section \<open>The state of the shared pattern\<close>

lemmas name_defs =
  isEventDefinition_def isEventReference_def isEventFilter_def isStateDefinition_def
  isStateReference_def isResultDefinition_def isResultReference_def isPosition_def
  isTagOnDependent_def isOnDependent_def onDependentAttributes_def onDependentTags_def
  startsWith_def sliceFrom_def slice_def js_def

lemmas attr_defs =
  parseAttr_def classifyAttr_def checkReference_def checkEventFilter_def checkOnDependent_def
  checkPosition_def checkXPrefix_def addDependsDiagnostic_def testEndSpace_def isWhiteSpace_def
  validPosition_def testInvalid_def matchAllInvalid_def isInvalidChar_def addRange_def

lemma tokens_fresh:
  "parseTokens 0 (js ''(a b'') = [\<lparr>token = js ''b'', characterDelta = 3\<rparr>]"
  by (simp add: parseTokens_def boundaries_def matchAllInvalid_def js_def isInvalidChar_def
      indexOf_def scanLoop.simps slice_def)

lemma tokens_stale:
  "parseTokens 2 (js ''(a b'') =
     [\<lparr>token = js ''(a'', characterDelta = 0\<rparr>, \<lparr>token = js ''b'', characterDelta = 3\<rparr>]"
  by (simp add: parseTokens_def boundaries_def matchAllInvalid_def js_def isInvalidChar_def
      indexOf_def scanLoop.simps slice_def)

lemma ranges_fresh:
  "addDefinitionRanges 0 [] (js ''(a b'') (span 18 22) = [(js ''b'', [span 21 22])]"
  unfolding addDefinitionRanges_def tokens_fresh
  by (simp add: addRange_def newRange_def translate_def isBefore_def span_def js_def)

lemma ranges_stale:
  "addDefinitionRanges 2 [] (js ''(a b'') (span 18 22)
     = [(js ''(a'', [span 18 20]), (js ''b'', [span 21 22])]"
  unfolding addDefinitionRanges_def tokens_stale
  by (simp add: addRange_def newRange_def translate_def isBefore_def span_def js_def)

lemma click_step:
  "parseAttr (js ''button'') [js ''on:click'', js ''render'', js ''position'']
     \<lparr>attrName = js ''on:click'', attrValue = js ''(a b'', attrRange = span 18 22,
      fullRange = span 8 23\<rparr> (emptyParsed, li)
   = (emptyParsed\<lparr>event_definitions := addDefinitionRanges li [] (js ''(a b'') (span 18 22)\<rparr>, li)"
  by (simp add: attr_defs name_defs emptyParsed_def)

lemma render_step:
  "parseAttr (js ''button'') [js ''on:click'', js ''render'', js ''position'']
     \<lparr>attrName = js ''render'', attrValue = js ''r'', attrRange = span 32 33,
      fullRange = span 24 34\<rparr> (acc, li)
   = (acc\<lparr>result_references := addRange (result_references acc) (js ''r'') (span 32 33)\<rparr>, li)"
  by (simp add: attr_defs name_defs)

lemma test_fresh: "testInvalid 0 (js ''a('') = (True, 2)"
  by (simp add: testInvalid_def matchAllInvalid_def isInvalidChar_def js_def)

lemma test_stale: "testInvalid 2 (js ''a('') = (False, 0)"
  by (simp add: testInvalid_def matchAllInvalid_def isInvalidChar_def js_def)

lemma position_step:
  "parseAttr (js ''button'') [js ''on:click'', js ''render'', js ''position'']
     \<lparr>attrName = js ''position'', attrValue = js ''a('', attrRange = span 45 47,
      fullRange = span 35 48\<rparr> (acc, li)
   = (acc\<lparr>diagnostics := diagnostics acc @
          (if fst (testInvalid li (js ''a(''))
           then [] else [newDiagnostic (span 35 48) invalidPositionMessage Error])\<rparr>,
      snd (testInvalid li (js ''a('')))"
proof -
  have n: "\<not> isEventDefinition (js ''position'')" "\<not> isEventReference (js ''position'')"
    "\<not> isStateDefinition (js ''position'')" "\<not> isStateReference (js ''position'')"
    "\<not> isResultDefinition (js ''position'')" "\<not> isResultReference (js ''position'')"
    "\<not> isEventFilter (js ''position'')" "\<not> isTagOnDependent (js ''button'') (js ''position'')"
    "isPosition (js ''position'')" "\<not> startsWith (js ''position'') (js ''x-'')"
    by (simp_all add: name_defs)
  have v: "js ''a('' \<notin> set validPosition" by (simp add: validPosition_def js_def)
  have r: "js ''render'' \<in> set [js ''on:click'', js ''render'', js ''position'']" by simp
  show ?thesis
    unfolding parseAttr_def classifyAttr_def checkReference_def checkEventFilter_def
      checkOnDependent_def checkPosition_def checkXPrefix_def addDependsDiagnostic_def
    using n v r
    by (cases "testInvalid li (js ''a('')") (simp add: Let_def)
qed

lemma button_loop:
  "parseLoop [buttonTree] (emptyParsed, li)
   = (emptyParsed
        \<lparr>event_definitions := addDefinitionRanges li [] (js ''(a b'') (span 18 22),
         result_references := [(js ''r'', [span 32 33])],
         diagnostics :=
           (if fst (testInvalid li (js ''a(''))
            then [] else [newDiagnostic (span 35 48) invalidPositionMessage Error])\<rparr>,
      snd (testInvalid li (js ''a('')))"
proof -
  have r: "addRange [] (js ''r'') (span 32 33) = [(js ''r'', [span 32 33])]"
    by (simp add: addRange_def js_def)
  show ?thesis
    by (simp add: buttonTree_def parseNode_def parseNodeAttrs_def click_step render_step
        position_step)
       (simp add: emptyParsed_def r)
qed

text \<open>
  Claim C3 fails on the code. The first parse of the document
  \<^verbatim>\<open><button on:click="(a b" render="r" position="a("></button>\<close> in a fresh process
  (\<open>lastIndex\<close> 0) records the event definition \<open>b\<close> only and no local diagnostic, and
  leaves the \<open>lastIndex\<close> of the pattern at 2. The second parse of the same text then
  records the event definitions \<open>(a\<close> and \<open>b\<close> and reports an invalid render position.
\<close>

theorem reparse_differs:
  "snd (parseHTMLDocument (\<lambda>text. buttonTree) (exampleTextDocument (js ''a.html'') [])
          (exampleLSDocument (js ''a.html'')) 0) = 2
   \<and> event_definitions (fst (parseHTMLDocument (\<lambda>text. buttonTree)
          (exampleTextDocument (js ''a.html'') []) (exampleLSDocument (js ''a.html'')) 0))
       = [(js ''b'', [span 21 22])]
   \<and> diagnostics (fst (parseHTMLDocument (\<lambda>text. buttonTree)
          (exampleTextDocument (js ''a.html'') []) (exampleLSDocument (js ''a.html'')) 0))
       = []
   \<and> event_definitions (fst (parseHTMLDocument (\<lambda>text. buttonTree)
          (exampleTextDocument (js ''a.html'') []) (exampleLSDocument (js ''a.html'')) 2))
       = [(js ''(a'', [span 18 20]), (js ''b'', [span 21 22])]
   \<and> diagnostics (fst (parseHTMLDocument (\<lambda>text. buttonTree)
          (exampleTextDocument (js ''a.html'') []) (exampleLSDocument (js ''a.html'')) 2))
       = [newDiagnostic (span 35 48) invalidPositionMessage Error]"
  by (simp add: parseHTMLDocument_def button_loop test_fresh test_stale ranges_fresh ranges_stale
      del: parseLoop.simps)

lemma render_step_any:
  "parseAttr tg [js ''render'', js ''position'']
     \<lparr>attrName = js ''render'', attrValue = js ''r'', attrRange = vr, fullRange = fr\<rparr> (acc, li)
   = (acc\<lparr>result_references := addRange (result_references acc) (js ''r'') vr\<rparr>, li)"
  by (simp add: attr_defs name_defs)

lemma position_step_any:
  "parseAttr tg [js ''render'', js ''position'']
     \<lparr>attrName = js ''position'', attrValue = js ''a('', attrRange = vr, fullRange = fr\<rparr>
     (acc, li)
   = (acc\<lparr>diagnostics := diagnostics acc @
          (if fst (testInvalid li (js ''a(''))
           then [] else [newDiagnostic fr invalidPositionMessage Error])\<rparr>,
      snd (testInvalid li (js ''a('')))"
proof -
  have n: "\<not> isEventDefinition (js ''position'')" "\<not> isEventReference (js ''position'')"
    "\<not> isStateDefinition (js ''position'')" "\<not> isStateReference (js ''position'')"
    "\<not> isResultDefinition (js ''position'')" "\<not> isResultReference (js ''position'')"
    "\<not> isEventFilter (js ''position'')" "\<not> isTagOnDependent tg (js ''position'')"
    "isPosition (js ''position'')" "\<not> startsWith (js ''position'') (js ''x-'')"
    by (simp_all add: name_defs)
  have v: "js ''a('' \<notin> set validPosition" by (simp add: validPosition_def js_def)
  have r: "js ''render'' \<in> set [js ''render'', js ''position'']" by simp
  show ?thesis
    unfolding parseAttr_def classifyAttr_def checkReference_def checkEventFilter_def
      checkOnDependent_def checkPosition_def checkXPrefix_def addDependsDiagnostic_def
    using n v r
    by (cases "testInvalid li (js ''a('')") (simp add: Let_def)
qed

lemma testInvalid_fresh:
  "fst (testInvalid 0 v) = (\<exists>c \<in> set v. isInvalidChar c)"
proof -
  have "(indicesFrom 0 isInvalidChar v = []) = (\<forall>c \<in> set v. \<not> isInvalidChar c)"
    by (rule indicesFrom_empty)
  then show ?thesis
    by (cases "indicesFrom 0 isInvalidChar v") (simp_all add: testInvalid_def matchAllInvalid_def)
qed

lemma checkPosition_fresh:
  assumes "isPosition (attrName a)"
  shows "fst (checkPosition attrs a (ds, 0))
     = addDependsDiagnostic ds attrs (fullRange a) (attrName a) (js ''render'') (js ''a'')
       @ (if attrValue a \<notin> set validPosition \<and> (\<forall>c \<in> set (attrValue a). \<not> isInvalidChar c)
          then [newDiagnostic (fullRange a) invalidPositionMessage Error] else [])"
proof (cases "testInvalid 0 (attrValue a)")
  case (Pair found li')
  with testInvalid_fresh [of "attrValue a"]
  have "found = (\<exists>c \<in> set (attrValue a). isInvalidChar c)" by simp
  with Pair assms show ?thesis by (simp add: checkPosition_def Let_def)
qed

text \<open>
  Claim C5 is what the check of \<open>position\<close> does while the \<open>lastIndex\<close> of the pattern is
  0. It fails on the code once an earlier \<open>test\<close> has moved the \<open>lastIndex\<close>: in the
  document \<^verbatim>\<open><div render="r" position="a("></div><p render="r" position="a("></p>\<close>,
  parsed in a fresh process, the second \<open>position\<close> is reported as invalid although its
  value has the bracket at index 1.
\<close>

theorem position_reported_despite_bracket:
  "diagnostics (fst (parseHTMLDocument (\<lambda>text. twoPositionsTree)
       (exampleTextDocument (js ''a.html'') []) (exampleLSDocument (js ''a.html'')) 0))
     = [newDiagnostic (span 50 63) invalidPositionMessage Error]
   \<and> isInvalidChar (js ''a('' ! 1)"
proof -
  have l: "parseLoop [twoPositionsTree] (emptyParsed, 0)
    = (emptyParsed
        \<lparr>result_references := [(js ''r'', [span 13 14, span 47 48])],
         diagnostics := [newDiagnostic (span 50 63) invalidPositionMessage Error]\<rparr>, 0)"
    by (simp add: twoPositionsTree_def parseNode_def parseNodeAttrs_def render_step_any
        position_step_any test_fresh test_stale)
       (simp add: emptyParsed_def addRange_def js_def)
  have b: "isInvalidChar (js ''a('' ! 1)" by (simp add: js_def isInvalidChar_def)
  show ?thesis
    using b by (simp add: parseHTMLDocument_def l del: parseLoop.simps)
qed

end
